theory Spec2Isabelle
  imports Main "HOL-Library.Word"
begin

section \<open>Cache-layout primitives (prefetch_utils.h, false_sharing.c)\<close>

text \<open>
  The layout of a C object type on the target (x86-64, System V): its size and its
  alignment in bytes. A struct places each member at the next offset that is a multiple
  of the member's alignment and is padded at the end to a multiple of its own alignment,
  which is the largest alignment of a member.
\<close>

record ctype =
  csize :: nat
  calign :: nat

definition CACHE_LINE_SIZE :: nat where
  "CACHE_LINE_SIZE = 64"

definition NUM_THREADS :: nat where
  "NUM_THREADS = 4"

definition uint64_t :: ctype where
  "uint64_t = \<lparr>csize = 8, calign = 8\<rparr>"

definition char_array :: "nat \<Rightarrow> ctype" where
  "char_array n = \<lparr>csize = n, calign = 1\<rparr>"

definition align_up :: "nat \<Rightarrow> nat \<Rightarrow> nat" where
  "align_up a n = ((n + a - 1) div a) * a"

fun member_offsets :: "nat \<Rightarrow> ctype list \<Rightarrow> nat list" where
  "member_offsets off [] = []"
| "member_offsets off (m # ms) =
     align_up (calign m) off # member_offsets (align_up (calign m) off + csize m) ms"

fun members_end :: "nat \<Rightarrow> ctype list \<Rightarrow> nat" where
  "members_end off [] = off"
| "members_end off (m # ms) = members_end (align_up (calign m) off + csize m) ms"

definition struct_type :: "ctype list \<Rightarrow> ctype" where
  "struct_type ms =
     \<lparr>csize = align_up (fold max (map calign ms) 1) (members_end 0 ms),
      calign = fold max (map calign ms) 1\<rparr>"

definition array_type :: "ctype \<Rightarrow> nat \<Rightarrow> ctype" where
  "array_type t n = \<lparr>csize = n * csize t, calign = calign t\<rparr>"

text \<open>
  \<^verbatim>\<open>struct { volatile uint64_t counter; char padding[CACHE_LINE_SIZE - sizeof(uint64_t)]; }\<close>,
  the element type of \<^verbatim>\<open>good_counters.per_thread\<close>, and the two counter structs.
\<close>

definition per_thread_members :: "ctype list" where
  "per_thread_members = [uint64_t, char_array (CACHE_LINE_SIZE - csize uint64_t)]"

definition per_thread_type :: ctype where
  "per_thread_type = struct_type per_thread_members"

definition good_counters :: ctype where
  "good_counters = struct_type [array_type per_thread_type NUM_THREADS]"

definition bad_counters :: ctype where
  "bad_counters = struct_type [array_type uint64_t NUM_THREADS]"

text \<open>
  The address of \<^verbatim>\<open>good.per_thread[i].counter\<close> and of \<^verbatim>\<open>bad.counter[i]\<close> for
  an object at address \<open>base\<close>, and the cache line an address lies in.
\<close>

definition good_counter_addr :: "nat \<Rightarrow> nat \<Rightarrow> nat" where
  "good_counter_addr base i =
     base + i * csize per_thread_type + member_offsets 0 per_thread_members ! 0"

definition bad_counter_addr :: "nat \<Rightarrow> nat \<Rightarrow> nat" where
  "bad_counter_addr base i = base + i * csize uint64_t"

definition cache_line :: "nat \<Rightarrow> nat" where
  "cache_line a = a div CACHE_LINE_SIZE"

section \<open>Workloads over a memory arena\<close>

text \<open>
  A memory arena of \<^verbatim>\<open>uint64_t\<close> is a list of 64-bit words. An access outside the
  arena is undefined in C; the model returns an error for it. A workload's state is its
  running checksum, the arena, and the log of the prefetch hints it has issued (the
  hint and the element index of the hinted address): a prefetch instruction never
  faults and changes neither registers nor memory, it only adds to that log.
\<close>

type_synonym u64 = "64 word"

datatype error = ArrayOutOfBounds nat | IndexOutOfBounds nat | DivisionByZero

datatype hint = T0 | T1 | T2 | NTA

record wstate =
  wsum :: u64
  warray :: "u64 list"
  wlog :: "(hint \<times> nat) list"

definition start_state :: "u64 list \<Rightarrow> wstate" where
  "start_state arr = \<lparr>wsum = 0, warray = arr, wlog = []\<rparr>"

text \<open>
  What a run of a workload shows to the program: the checksum it returns and the arena
  it leaves, or the error. Two states have the same result when they agree on both.
\<close>

definition observable :: "error + wstate \<Rightarrow> error + (u64 \<times> u64 list)" where
  "observable r = (case r of Inl e \<Rightarrow> Inl e | Inr s \<Rightarrow> Inr (wsum s, warray s))"

definition same_result :: "wstate \<Rightarrow> wstate \<Rightarrow> bool" where
  "same_result s t = (wsum s = wsum t \<and> warray s = warray t)"

text \<open>\<^verbatim>\<open>for (size_t i = 0; i < n; i++) body\<close>; an error ends the loop.\<close>

definition for_range :: "nat \<Rightarrow> (nat \<Rightarrow> 's \<Rightarrow> error + 's) \<Rightarrow> 's \<Rightarrow> error + 's" where
  "for_range n body s =
     fold (\<lambda>i r. case r of Inl e \<Rightarrow> Inl e | Inr t \<Rightarrow> body i t) [0..<n] (Inr s)"

definition read_at :: "(nat \<Rightarrow> error) \<Rightarrow> 'a list \<Rightarrow> nat \<Rightarrow> error + 'a" where
  "read_at oob xs i = (if i < length xs then Inr (xs ! i) else Inl (oob i))"

definition PREFETCH :: "hint \<Rightarrow> nat \<Rightarrow> wstate \<Rightarrow> wstate" where
  "PREFETCH h a s = s\<lparr>wlog := wlog s @ [(h, a)]\<rparr>"

text \<open>\<^verbatim>\<open>sum += array[i];\<close>\<close>

definition add_element :: "nat \<Rightarrow> wstate \<Rightarrow> error + wstate" where
  "add_element i s =
     (case read_at ArrayOutOfBounds (warray s) i of
        Inl e \<Rightarrow> Inl e
      | Inr v \<Rightarrow> Inr (s\<lparr>wsum := wsum s + v\<rparr>))"

subsection \<open>sequential_prefetch.c and prefetch_hints.c\<close>

definition sequential_no_prefetch :: "nat \<Rightarrow> nat \<Rightarrow> u64 list \<Rightarrow> error + wstate" where
  "sequential_no_prefetch iterations elements arr =
     for_range iterations (\<lambda>iter. for_range elements add_element) (start_state arr)"

definition sequential_with_prefetch ::
  "nat \<Rightarrow> nat \<Rightarrow> nat \<Rightarrow> u64 list \<Rightarrow> error + wstate" where
  "sequential_with_prefetch iterations elements distance arr =
     for_range iterations
       (\<lambda>iter. for_range elements (\<lambda>i s. add_element i (PREFETCH T0 (i + distance) s)))
       (start_state arr)"

definition no_prefetch :: "nat \<Rightarrow> nat \<Rightarrow> u64 list \<Rightarrow> error + wstate" where
  "no_prefetch iterations elements arr =
     for_range iterations (\<lambda>iter. for_range elements add_element) (start_state arr)"

text \<open>The initialisation loop of both \<^verbatim>\<open>main\<close>s: \<^verbatim>\<open>array[i] = i\<close>.\<close>

definition init_array :: "nat \<Rightarrow> u64 list \<Rightarrow> error + u64 list" where
  "init_array elements buf =
     for_range elements
       (\<lambda>i a. if i < length a then Inr (a[i := word_of_nat i]) else Inl (ArrayOutOfBounds i))
       buf"

text \<open>The arena in which every element holds its own index.\<close>

definition identity_array :: "nat \<Rightarrow> u64 list" where
  "identity_array elements = map word_of_nat [0..<elements]"

text \<open>
  The constants of sequential_prefetch.c and of prefetch_hints.c;
  \<^verbatim>\<open>elements = ARRAY_SIZE / sizeof(uint64_t)\<close>.
\<close>

definition SEQ_ARRAY_SIZE :: nat where
  "SEQ_ARRAY_SIZE = 128 * 1024 * 1024"

definition SEQ_ITERATIONS :: nat where
  "SEQ_ITERATIONS = 5"

definition SEQ_PREFETCH_DISTANCE :: nat where
  "SEQ_PREFETCH_DISTANCE = 16"

definition HINTS_ARRAY_SIZE :: nat where
  "HINTS_ARRAY_SIZE = 128 * 1024 * 1024"

definition HINTS_ITERATIONS :: nat where
  "HINTS_ITERATIONS = 3"

definition SEQ_ELEMENTS :: nat where
  "SEQ_ELEMENTS = SEQ_ARRAY_SIZE div csize uint64_t"

definition HINTS_ELEMENTS :: nat where
  "HINTS_ELEMENTS = HINTS_ARRAY_SIZE div csize uint64_t"

text \<open>The sum of \<open>0, \<dots>, elements - 1\<close> as a 64-bit value.\<close>

definition closed_form_sum :: "nat \<Rightarrow> u64" where
  "closed_form_sum elements = word_of_nat (elements * (elements - 1) div 2)"

subsection \<open>random_prefetch.c\<close>

definition RANDOM_ARRAY_SIZE :: nat where
  "RANDOM_ARRAY_SIZE = 64 * 1024 * 1024"

definition ACCESS_COUNT :: nat where
  "ACCESS_COUNT = 10000000"

definition PREFETCH_AHEAD :: nat where
  "PREFETCH_AHEAD = 8"

definition RANDOM_ELEMENTS :: nat where
  "RANDOM_ELEMENTS = RANDOM_ARRAY_SIZE div csize uint64_t"

text \<open>\<^verbatim>\<open>seed = seed * 1103515245 + 12345;\<close> and \<^verbatim>\<open>(seed >> 16) % elements\<close>.\<close>

definition lcg_next :: "u64 \<Rightarrow> u64" where
  "lcg_next seed = seed * 1103515245 + 12345"

definition lcg_index :: "nat \<Rightarrow> u64 \<Rightarrow> error + u64" where
  "lcg_index elements seed =
     (if (word_of_nat elements :: u64) = 0 then Inl DivisionByZero
      else Inr (drop_bit 16 seed mod word_of_nat elements))"

definition gen_step :: "nat \<Rightarrow> nat \<Rightarrow> u64 \<times> u64 list \<Rightarrow> error + (u64 \<times> u64 list)" where
  "gen_step elements i st =
     (case lcg_index elements (lcg_next (fst st)) of
        Inl e \<Rightarrow> Inl e
      | Inr v \<Rightarrow>
          if i < length (snd st) then Inr (lcg_next (fst st), (snd st)[i := v])
          else Inl (IndexOutOfBounds i))"

definition generate_random_indices :: "nat \<Rightarrow> nat \<Rightarrow> u64 list \<Rightarrow> error + u64 list" where
  "generate_random_indices count elements indices =
     (case for_range count (gen_step elements) (12345, indices) of
        Inl e \<Rightarrow> Inl e
      | Inr st \<Rightarrow> Inr (snd st))"

text \<open>\<^verbatim>\<open>sum += array[indices[i]];\<close> and \<^verbatim>\<open>PREFETCH(&array[indices[k]]);\<close>\<close>

definition add_indexed :: "u64 list \<Rightarrow> nat \<Rightarrow> wstate \<Rightarrow> error + wstate" where
  "add_indexed indices i s =
     (case read_at IndexOutOfBounds indices i of
        Inl e \<Rightarrow> Inl e
      | Inr j \<Rightarrow> add_element (unat j) s)"

definition prefetch_indexed :: "hint \<Rightarrow> u64 list \<Rightarrow> nat \<Rightarrow> wstate \<Rightarrow> error + wstate" where
  "prefetch_indexed h indices k s =
     (case read_at IndexOutOfBounds indices k of
        Inl e \<Rightarrow> Inl e
      | Inr j \<Rightarrow> Inr (PREFETCH h (unat j) s))"

definition random_no_prefetch :: "nat \<Rightarrow> u64 list \<Rightarrow> u64 list \<Rightarrow> error + wstate" where
  "random_no_prefetch access_count arr indices =
     for_range access_count (add_indexed indices) (start_state arr)"

definition random_with_prefetch ::
  "nat \<Rightarrow> nat \<Rightarrow> u64 list \<Rightarrow> u64 list \<Rightarrow> error + wstate" where
  "random_with_prefetch access_count ahead arr indices =
     for_range access_count
       (\<lambda>i s. case prefetch_indexed T0 indices (i + ahead) s of
                Inl e \<Rightarrow> Inl e
              | Inr s' \<Rightarrow> add_indexed indices i s')
       (start_state arr)"

text \<open>
  The loop body of \<^verbatim>\<open>random_with_multi_prefetch\<close>:
  \<^verbatim>\<open>PREFETCH_T0(&array[indices[i + 4]]); PREFETCH_T1(&array[indices[i + 16]]); sum += array[indices[i]];\<close>
\<close>

definition multi_body :: "u64 list \<Rightarrow> nat \<Rightarrow> wstate \<Rightarrow> error + wstate" where
  "multi_body indices i s =
     (case prefetch_indexed T0 indices (i + 4) s of
        Inl e \<Rightarrow> Inl e
      | Inr s1 \<Rightarrow>
          (case prefetch_indexed T1 indices (i + 16) s1 of
             Inl e \<Rightarrow> Inl e
           | Inr s2 \<Rightarrow> add_indexed indices i s2))"

definition random_with_multi_prefetch :: "nat \<Rightarrow> u64 list \<Rightarrow> u64 list \<Rightarrow> error + wstate" where
  "random_with_multi_prefetch access_count arr indices =
     for_range access_count (multi_body indices) (start_state arr)"

text \<open>
  The path of \<^verbatim>\<open>main\<close> for \<^verbatim>\<open>--multi-prefetch\<close>: the index buffer \<open>buf\<close> is the
  block that \<^verbatim>\<open>malloc((ACCESS_COUNT + PREFETCH_AHEAD + 1) * sizeof(size_t))\<close> returned,
  \<^verbatim>\<open>generate_random_indices\<close> fills its first \<^verbatim>\<open>ACCESS_COUNT + PREFETCH_AHEAD\<close>
  entries, and the workload runs on the arena \<open>arr\<close>.
\<close>

definition random_prefetch_multi :: "u64 list \<Rightarrow> u64 list \<Rightarrow> error + wstate" where
  "random_prefetch_multi arr buf =
     (case generate_random_indices (ACCESS_COUNT + PREFETCH_AHEAD) RANDOM_ELEMENTS buf of
        Inl e \<Rightarrow> Inl e
      | Inr indices \<Rightarrow> random_with_multi_prefetch ACCESS_COUNT arr indices)"

text \<open>
  The \<open>i\<close>-th index of the generated sequence: the seed 12345 after \<open>i + 1\<close> steps
  of the generator, shifted and reduced.
\<close>

definition nth_index :: "nat \<Rightarrow> nat \<Rightarrow> u64" where
  "nth_index elements i = drop_bit 16 ((lcg_next ^^ Suc i) 12345) mod word_of_nat elements"

subsection \<open>latency_hiding.c: memory_intensive\<close>

definition LARGE_ARRAY_SIZE :: nat where
  "LARGE_ARRAY_SIZE = 64 * 1024 * 1024"

definition MEMORY_ACCESSES :: nat where
  "MEMORY_ACCESSES = 5000000"

definition memory_step :: "nat \<Rightarrow> nat \<Rightarrow> u64 \<times> wstate \<Rightarrow> error + (u64 \<times> wstate)" where
  "memory_step elements i st =
     (case lcg_index elements (lcg_next (fst st)) of
        Inl e \<Rightarrow> Inl e
      | Inr idx \<Rightarrow>
          (case add_element (unat idx) (snd st) of
             Inl e \<Rightarrow> Inl e
           | Inr s \<Rightarrow> Inr (lcg_next (fst st), s\<lparr>warray := (warray s)[unat idx := wsum s]\<rparr>)))"

definition memory_intensive :: "nat \<Rightarrow> nat \<Rightarrow> u64 list \<Rightarrow> error + wstate" where
  "memory_intensive accesses elements large_array =
     (case for_range accesses (memory_step elements) (12345, start_state large_array) of
        Inl e \<Rightarrow> Inl e
      | Inr st \<Rightarrow> Inr (snd st))"

section \<open>The barrier protocol (worker_thread, run_dual_thread, run_test)\<close>

text \<open>
  The threads of one experiment run share the ready counter and the start flag. A run is
  an interleaving of atomic steps of the driver and of the workers, each step one access
  to the shared variables; a schedule names the thread that takes each step. A thread
  that waits (the driver polling the counter or joining, a worker spinning) stays where
  it is when it is scheduled.

  A worker is at one of the points of \<^verbatim>\<open>worker_thread\<close>: not yet created, before
  \<^verbatim>\<open>bind_to_cpu\<close>, before \<^verbatim>\<open>__atomic_fetch_add(targ->ready, 1, ...)\<close>, in the loop
  \<^verbatim>\<open>while (*targ->start == 0)\<close>, in its timed region, returned after writing
  \<^verbatim>\<open>elapsed_time\<close>, or returned early. Its record also counts its calls of
  \<^verbatim>\<open>bind_to_cpu\<close> and its increments of the counter, says whether the binding
  succeeded, and whether the worker has written its timed result.
\<close>

datatype wpc = NotCreated | AtBind | AtIncrement | AtSpin | AtWork | Finished | Aborted

record worker =
  pc :: wpc
  binds :: nat
  pinned :: bool
  increments :: nat
  recorded :: bool

text \<open>
  The driver (\<^verbatim>\<open>run_dual_thread\<close>, and \<^verbatim>\<open>run_test\<close> of false_sharing.c with four
  workers) is about to create worker \<open>i\<close>, in the loop \<^verbatim>\<open>while (ready < N) usleep(100)\<close>,
  before \<^verbatim>\<open>start = 1\<close>, about to join worker \<open>i\<close>, or past the last join. The shared
  state holds the two variables, the number of writes to the start flag so far, and the
  threads.
\<close>

datatype dpc = Creating nat | Polling | Releasing | Joining nat | Returned

record barrier =
  ready :: int
  start :: int
  start_writes :: nat
  driver :: dpc
  workers :: "worker list"

text \<open>
  An experiment run is configured by the number of workers, the CPU of each worker, what
  the operating system's \<^verbatim>\<open>sched_setaffinity\<close> returns for a CPU, and whether the
  worker returns when \<^verbatim>\<open>bind_to_cpu\<close> fails, which the worker of dcache_contention.c
  does and the workers of the other programs do not.
\<close>

record config =
  nworkers :: nat
  cpu_of :: "nat \<Rightarrow> int"
  sched_setaffinity :: "int \<Rightarrow> int"
  checks_bind :: bool

text \<open>\<^verbatim>\<open>bind_to_cpu\<close>: -1 when the system call is refused, 0 otherwise.\<close>

definition bind_to_cpu :: "(int \<Rightarrow> int) \<Rightarrow> int \<Rightarrow> int" where
  "bind_to_cpu os cpu_id = (if os cpu_id \<noteq> 0 then - 1 else 0)"

definition set_worker :: "nat \<Rightarrow> worker \<Rightarrow> barrier \<Rightarrow> barrier" where
  "set_worker i w s = s\<lparr>workers := (workers s)[i := w]\<rparr>"

definition worker_thread :: "config \<Rightarrow> nat \<Rightarrow> barrier \<Rightarrow> barrier" where
  "worker_thread cfg i s =
     (if i < length (workers s) then
        (case pc (workers s ! i) of
           NotCreated \<Rightarrow> s
         | AtBind \<Rightarrow>
             (if checks_bind cfg \<and> bind_to_cpu (sched_setaffinity cfg) (cpu_of cfg i) \<noteq> 0
              then set_worker i ((workers s ! i)
                     \<lparr>pc := Aborted, binds := binds (workers s ! i) + 1\<rparr>) s
              else set_worker i ((workers s ! i)
                     \<lparr>pc := AtIncrement, binds := binds (workers s ! i) + 1,
                      pinned := (bind_to_cpu (sched_setaffinity cfg) (cpu_of cfg i) = 0)\<rparr>) s)
         | AtIncrement \<Rightarrow>
             set_worker i ((workers s ! i)
               \<lparr>pc := AtSpin, increments := increments (workers s ! i) + 1\<rparr>)
               (s\<lparr>ready := ready s + 1\<rparr>)
         | AtSpin \<Rightarrow>
             (if start s = 0 then s else set_worker i ((workers s ! i)\<lparr>pc := AtWork\<rparr>) s)
         | AtWork \<Rightarrow> set_worker i ((workers s ! i)\<lparr>pc := Finished, recorded := True\<rparr>) s
         | Finished \<Rightarrow> s
         | Aborted \<Rightarrow> s)
      else s)"

definition joined :: "worker \<Rightarrow> bool" where
  "joined w = (pc w = Finished \<or> pc w = Aborted)"

definition run_dual_thread :: "config \<Rightarrow> barrier \<Rightarrow> barrier" where
  "run_dual_thread cfg s =
     (case driver s of
        Creating i \<Rightarrow>
          (if i < nworkers cfg
           then (set_worker i ((workers s ! i)\<lparr>pc := AtBind\<rparr>) s)\<lparr>driver := Creating (i + 1)\<rparr>
           else s\<lparr>driver := Polling\<rparr>)
      | Polling \<Rightarrow> (if ready s < int (nworkers cfg) then s else s\<lparr>driver := Releasing\<rparr>)
      | Releasing \<Rightarrow> s\<lparr>start := 1, start_writes := start_writes s + 1, driver := Joining 0\<rparr>
      | Joining i \<Rightarrow>
          (if i < nworkers cfg
           then (if joined (workers s ! i) then s\<lparr>driver := Joining (i + 1)\<rparr> else s)
           else s\<lparr>driver := Returned\<rparr>)
      | Returned \<Rightarrow> s)"

datatype thread = Driver | Worker nat

definition step :: "config \<Rightarrow> thread \<Rightarrow> barrier \<Rightarrow> barrier" where
  "step cfg t s = (case t of Driver \<Rightarrow> run_dual_thread cfg s | Worker i \<Rightarrow> worker_thread cfg i s)"

definition new_worker :: worker where
  "new_worker = \<lparr>pc = NotCreated, binds = 0, pinned = False, increments = 0, recorded = False\<rparr>"

definition initial :: "config \<Rightarrow> barrier" where
  "initial cfg = \<lparr>ready = 0, start = 0, start_writes = 0, driver = Creating 0,
     workers = replicate (nworkers cfg) new_worker\<rparr>"

definition run :: "config \<Rightarrow> thread list \<Rightarrow> barrier" where
  "run cfg schedule = fold (step cfg) schedule (initial cfg)"

text \<open>The invariant of the protocol.\<close>

definition incremented :: "worker \<Rightarrow> bool" where
  "incremented w = (pc w = AtSpin \<or> pc w = AtWork \<or> pc w = Finished)"

definition released :: "dpc \<Rightarrow> bool" where
  "released d = (case d of Joining i \<Rightarrow> True | Returned \<Rightarrow> True | _ \<Rightarrow> False)"

definition polled :: "dpc \<Rightarrow> bool" where
  "polled d = (d = Releasing \<or> released d)"

definition worker_ok :: "int \<Rightarrow> dpc \<Rightarrow> worker \<Rightarrow> bool" where
  "worker_ok st d w =
     (increments w = (if incremented w then 1 else 0) \<and>
      binds w = (if pc w = NotCreated \<or> pc w = AtBind then 0 else 1) \<and>
      (pc w = AtWork \<or> pc w = Finished \<longrightarrow> st = 1) \<and>
      (recorded w \<longrightarrow> pc w = Finished) \<and>
      (polled d \<longrightarrow> incremented w))"

definition not_yet_created :: "dpc \<Rightarrow> worker list \<Rightarrow> bool" where
  "not_yet_created d ws =
     (case d of Creating k \<Rightarrow> (\<forall>j<length ws. k \<le> j \<longrightarrow> pc (ws ! j) = NotCreated) | _ \<Rightarrow> True)"

definition barrier_inv :: "config \<Rightarrow> barrier \<Rightarrow> bool" where
  "barrier_inv cfg s =
     (length (workers s) = nworkers cfg \<and>
      ready s = int (sum_list (map increments (workers s))) \<and>
      start s = (if released (driver s) then 1 else 0) \<and>
      start_writes s = (if released (driver s) then 1 else 0) \<and>
      not_yet_created (driver s) (workers s) \<and>
      (\<forall>w \<in> set (workers s). worker_ok (start s) (driver s) w))"

text \<open>Worker \<open>i\<close> exists and has not come past \<^verbatim>\<open>bind_to_cpu\<close>.\<close>

definition held_back :: "nat \<Rightarrow> barrier \<Rightarrow> bool" where
  "held_back i s =
     (i < length (workers s) \<and>
      (pc (workers s ! i) = NotCreated \<or> pc (workers s ! i) = AtBind \<or>
       pc (workers s ! i) = Aborted))"

text \<open>
  \<^verbatim>\<open>run_dual_thread(0, 8, ...)\<close>, a schedule that lets every thread finish, and two
  machines: one that binds every CPU and one that refuses CPU 8.
\<close>

definition same_core_config :: "(int \<Rightarrow> int) \<Rightarrow> bool \<Rightarrow> config" where
  "same_core_config os chk =
     \<lparr>nworkers = 2, cpu_of = (\<lambda>i. if i = 0 then 0 else 8), sched_setaffinity = os,
      checks_bind = chk\<rparr>"

definition fair_schedule :: "thread list" where
  "fair_schedule =
     [Driver, Driver, Driver, Worker 0, Worker 1, Worker 0, Worker 1, Driver, Driver,
      Worker 0, Worker 1, Worker 0, Worker 1, Driver, Driver, Driver]"

definition all_cpus_online :: "int \<Rightarrow> int" where
  "all_cpus_online cpu = 0"

definition cpu8_offline :: "int \<Rightarrow> int" where
  "cpu8_offline cpu = (if cpu = 8 then - 1 else 0)"

section \<open>The programs' main functions\<close>

text \<open>
  What a \<^verbatim>\<open>main\<close> does with its arguments, as far as the outside sees it: the usage
  line it prints to standard output, the diagnostic of \<^verbatim>\<open>perror\<close>, the experiments it
  calls (each named by the call in the source), and how the process ends: with an exit
  status, in the undefined behaviour of \<^verbatim>\<open>memset\<close> through a null pointer, or not at
  all when an experiment does not return. The environment says which allocation calls
  of the process succeed, counted from 0, and which experiments return. The
  informational \<^verbatim>\<open>printf\<close> lines are not part of the trace.
\<close>

datatype event = Usage | Perror | Test string

datatype outcome = Exit "event list" int | NullDereference "event list" | NoReturn "event list"

record env =
  alloc_ok :: "nat \<Rightarrow> bool"
  returns :: "string \<Rightarrow> bool"

text \<open>\<^verbatim>\<open>const char *mode = argc > 1 ? argv[1] : "--all";\<close>\<close>

definition mode_of :: "string list \<Rightarrow> string" where
  "mode_of argv = (if 1 < length argv then argv ! 1 else ''--all'')"

fun run_tests :: "env \<Rightarrow> string list \<Rightarrow> event list \<Rightarrow> outcome" where
  "run_tests e [] tr = Exit tr 0"
| "run_tests e (t # ts) tr =
     (if returns e t then run_tests e ts (tr @ [Test t]) else NoReturn tr)"

definition main_false_sharing :: "env \<Rightarrow> string list \<Rightarrow> outcome" where
  "main_false_sharing e argv =
     (if mode_of argv = ''--bad'' then run_tests e [''run_test(0)''] []
      else if mode_of argv = ''--good'' then run_tests e [''run_test(1)''] []
      else if mode_of argv = ''--all'' then run_tests e [''run_test(0)'', ''run_test(1)''] []
      else Exit [Usage] 1)"

definition main_dcache_contention :: "env \<Rightarrow> string list \<Rightarrow> outcome" where
  "main_dcache_contention e argv =
     (if \<not> alloc_ok e 0 \<or> \<not> alloc_ok e 1 then Exit [Perror] 1
      else if mode_of argv = ''--same-core'' then run_tests e [''run_dual_thread(0, 8)''] []
      else if mode_of argv = ''--diff-core'' then run_tests e [''run_dual_thread(0, 1)''] []
      else if mode_of argv = ''--single'' then run_tests e [''run_single_thread()''] []
      else if mode_of argv = ''--all'' then
        run_tests e [''run_single_thread()'', ''run_dual_thread(0, 8)'', ''run_dual_thread(0, 1)''] []
      else Exit [Usage] 1)"

definition main_icache_contention :: "env \<Rightarrow> string list \<Rightarrow> outcome" where
  "main_icache_contention e argv =
     (if mode_of argv = ''--same-core'' then run_tests e [''run_dual_thread(0, 8)''] []
      else if mode_of argv = ''--diff-core'' then run_tests e [''run_dual_thread(0, 1)''] []
      else if mode_of argv = ''--single'' then run_tests e [''run_single_thread()''] []
      else if mode_of argv = ''--all'' then
        run_tests e [''run_single_thread()'', ''run_dual_thread(0, 8)'', ''run_dual_thread(0, 1)''] []
      else Exit [Usage] 1)"

definition main_latency_hiding :: "env \<Rightarrow> string list \<Rightarrow> outcome" where
  "main_latency_hiding e argv =
     (if \<not> alloc_ok e 0 then Exit [Perror] 1
      else if mode_of argv = ''--same-core'' then run_tests e [''run_dual_thread(0, 8)''] []
      else if mode_of argv = ''--diff-core'' then run_tests e [''run_dual_thread(0, 1)''] []
      else if mode_of argv = ''--single'' then run_tests e [''run_single_both()''] []
      else if mode_of argv = ''--all'' then
        run_tests e [''run_single_compute()'', ''run_single_memory()'', ''run_single_both()'',
          ''run_dual_thread(0, 8)'', ''run_dual_thread(0, 1)''] []
      else Exit [Usage] 1)"

definition main_shared_cache :: "env \<Rightarrow> string list \<Rightarrow> outcome" where
  "main_shared_cache e argv =
     (if mode_of argv = ''--same-core'' then run_tests e [''run_dual_thread(0, 8)''] []
      else if mode_of argv = ''--diff-core'' then run_tests e [''run_dual_thread(0, 1)''] []
      else if mode_of argv = ''--single'' then run_tests e [''run_single_thread()''] []
      else if mode_of argv = ''--all'' then
        run_tests e [''run_single_thread()'', ''run_dual_thread(0, 8)'', ''run_dual_thread(0, 1)''] []
      else Exit [Usage] 1)"

definition main_sequential_prefetch :: "env \<Rightarrow> string list \<Rightarrow> outcome" where
  "main_sequential_prefetch e argv =
     (if \<not> alloc_ok e 0 then Exit [Perror] 1
      else if mode_of argv = ''--no-prefetch'' then
        run_tests e [''run_test(sequential_no_prefetch)''] []
      else if mode_of argv = ''--prefetch'' then
        run_tests e [''run_test(sequential_with_prefetch)''] []
      else if mode_of argv = ''--prefetch-nta'' then
        run_tests e [''run_test(sequential_with_prefetch_nta)''] []
      else if mode_of argv = ''--all'' then
        run_tests e [''run_test(sequential_no_prefetch)'', ''run_test(sequential_with_prefetch)'',
          ''run_test(sequential_with_prefetch_nta)''] []
      else Exit [Usage] 1)"

definition main_random_prefetch :: "env \<Rightarrow> string list \<Rightarrow> outcome" where
  "main_random_prefetch e argv =
     (if \<not> alloc_ok e 0 \<or> \<not> alloc_ok e 1 then Exit [Perror] 1
      else if mode_of argv = ''--no-prefetch'' then
        run_tests e [''run_test(random_no_prefetch)''] []
      else if mode_of argv = ''--prefetch'' then
        run_tests e [''run_test(random_with_prefetch)''] []
      else if mode_of argv = ''--multi-prefetch'' then
        run_tests e [''run_test(random_with_multi_prefetch)''] []
      else if mode_of argv = ''--all'' then
        run_tests e [''run_test(random_no_prefetch)'', ''run_test(random_with_prefetch)'',
          ''run_test(random_with_multi_prefetch)''] []
      else Exit [Usage] 1)"

definition main_matrix_prefetch :: "env \<Rightarrow> string list \<Rightarrow> outcome" where
  "main_matrix_prefetch e argv =
     (if \<not> alloc_ok e 0 \<or> \<not> alloc_ok e 1 \<or> \<not> alloc_ok e 2 then Exit [Perror] 1
      else if mode_of argv = ''--naive'' then run_tests e [''run_test(matmul_naive)''] []
      else if mode_of argv = ''--prefetch'' then run_tests e [''run_test(matmul_prefetch)''] []
      else if mode_of argv = ''--blocked'' then run_tests e [''run_test(matmul_blocked)''] []
      else if mode_of argv = ''--blocked-prefetch'' then
        run_tests e [''run_test(matmul_blocked_prefetch)''] []
      else if mode_of argv = ''--all'' then
        run_tests e [''run_test(matmul_naive)'', ''run_test(matmul_prefetch)'',
          ''run_test(matmul_blocked)'', ''run_test(matmul_blocked_prefetch)''] []
      else Exit [Usage] 1)"

definition main_prefetch_hints :: "env \<Rightarrow> string list \<Rightarrow> outcome" where
  "main_prefetch_hints e argv =
     (if \<not> alloc_ok e 0 then Exit [Perror] 1
      else run_tests e [''run_test(no_prefetch)'', ''run_test(prefetch_t0)'',
        ''run_test(prefetch_t1)'', ''run_test(prefetch_t2)'', ''run_test(prefetch_nta)''] [])"

definition main_prefetch_distance :: "env \<Rightarrow> string list \<Rightarrow> outcome" where
  "main_prefetch_distance e argv =
     (if \<not> alloc_ok e 0 \<or> \<not> alloc_ok e 1 then Exit [Perror] 1
      else run_tests e [''test_distance(0)'', ''test_distance(1)'', ''test_distance(2)'',
        ''test_distance(4)'', ''test_distance(8)'', ''test_distance(16)'', ''test_distance(32)'',
        ''test_distance(64)'', ''test_distance(128)'', ''test_distance(256)''] [])"

text \<open>
  combined_test.c: \<^verbatim>\<open>run_single\<close> and \<^verbatim>\<open>run_dual\<close> allocate one and two arenas and
  pass them to \<^verbatim>\<open>memset\<close> without a test for \<^verbatim>\<open>NULL\<close>.
\<close>

fun combined_runs :: "env \<Rightarrow> (string \<times> nat) list \<Rightarrow> nat \<Rightarrow> event list \<Rightarrow> outcome" where
  "combined_runs e [] k tr = Exit tr 0"
| "combined_runs e ((t, n) # ts) k tr =
     (if \<not> list_all (alloc_ok e) [k..<k + n] then NullDereference tr
      else if returns e t then combined_runs e ts (k + n) (tr @ [Test t])
      else NoReturn tr)"

definition main_combined_test :: "env \<Rightarrow> string list \<Rightarrow> outcome" where
  "main_combined_test e argv =
     combined_runs e [(''run_single(0)'', 1), (''run_single(1)'', 1), (''run_dual(0, 8, 0)'', 2),
       (''run_dual(0, 8, 1)'', 2), (''run_dual(0, 1, 0)'', 2), (''run_dual(0, 1, 1)'', 2)] 0 []"

text \<open>
  The experiments of each mode, as the usage line and the header comment of each program
  name the modes: the bad and the good counter layout and both; two threads on the
  hyper-threads 0 and 8 of one core, two threads on the cores 0 and 1, the
  single-thread baseline, and all of them; one workload variant, and all variants.
  dcache_contention, icache_contention and shared_cache have the same modes.
\<close>

definition false_sharing_modes :: "(string \<times> string list) list" where
  "false_sharing_modes =
     [(''--bad'', [''run_test(0)'']),
      (''--good'', [''run_test(1)'']),
      (''--all'', [''run_test(0)'', ''run_test(1)''])]"

definition contention_modes :: "(string \<times> string list) list" where
  "contention_modes =
     [(''--same-core'', [''run_dual_thread(0, 8)'']),
      (''--diff-core'', [''run_dual_thread(0, 1)'']),
      (''--single'', [''run_single_thread()'']),
      (''--all'', [''run_single_thread()'', ''run_dual_thread(0, 8)'', ''run_dual_thread(0, 1)''])]"

definition latency_hiding_modes :: "(string \<times> string list) list" where
  "latency_hiding_modes =
     [(''--same-core'', [''run_dual_thread(0, 8)'']),
      (''--diff-core'', [''run_dual_thread(0, 1)'']),
      (''--single'', [''run_single_both()'']),
      (''--all'', [''run_single_compute()'', ''run_single_memory()'', ''run_single_both()'',
         ''run_dual_thread(0, 8)'', ''run_dual_thread(0, 1)''])]"

definition sequential_prefetch_modes :: "(string \<times> string list) list" where
  "sequential_prefetch_modes =
     [(''--no-prefetch'', [''run_test(sequential_no_prefetch)'']),
      (''--prefetch'', [''run_test(sequential_with_prefetch)'']),
      (''--prefetch-nta'', [''run_test(sequential_with_prefetch_nta)'']),
      (''--all'', [''run_test(sequential_no_prefetch)'', ''run_test(sequential_with_prefetch)'',
         ''run_test(sequential_with_prefetch_nta)''])]"

definition random_prefetch_modes :: "(string \<times> string list) list" where
  "random_prefetch_modes =
     [(''--no-prefetch'', [''run_test(random_no_prefetch)'']),
      (''--prefetch'', [''run_test(random_with_prefetch)'']),
      (''--multi-prefetch'', [''run_test(random_with_multi_prefetch)'']),
      (''--all'', [''run_test(random_no_prefetch)'', ''run_test(random_with_prefetch)'',
         ''run_test(random_with_multi_prefetch)''])]"

definition matrix_prefetch_modes :: "(string \<times> string list) list" where
  "matrix_prefetch_modes =
     [(''--naive'', [''run_test(matmul_naive)'']),
      (''--prefetch'', [''run_test(matmul_prefetch)'']),
      (''--blocked'', [''run_test(matmul_blocked)'']),
      (''--blocked-prefetch'', [''run_test(matmul_blocked_prefetch)'']),
      (''--all'', [''run_test(matmul_naive)'', ''run_test(matmul_prefetch)'',
         ''run_test(matmul_blocked)'', ''run_test(matmul_blocked_prefetch)''])]"

text \<open>The experiments of the three programs that take no mode.\<close>

definition prefetch_hints_tests :: "string list" where
  "prefetch_hints_tests =
     [''run_test(no_prefetch)'', ''run_test(prefetch_t0)'', ''run_test(prefetch_t1)'',
      ''run_test(prefetch_t2)'', ''run_test(prefetch_nta)'']"

definition combined_test_runs :: "string list" where
  "combined_test_runs =
     [''run_single(0)'', ''run_single(1)'', ''run_dual(0, 8, 0)'', ''run_dual(0, 8, 1)'',
      ''run_dual(0, 1, 0)'', ''run_dual(0, 1, 1)'']"

definition prefetch_distance_tests :: "string list" where
  "prefetch_distance_tests =
     [''test_distance(0)'', ''test_distance(1)'', ''test_distance(2)'', ''test_distance(4)'',
      ''test_distance(8)'', ''test_distance(16)'', ''test_distance(32)'', ''test_distance(64)'',
      ''test_distance(128)'', ''test_distance(256)'']"

text \<open>
  The contract of a program with modes: a mode of the table runs exactly the experiments
  of that mode, in their order, and the process exits with status 0; any other mode
  prints the usage line only and the process exits with status 1.
\<close>

definition cli_contract :: "(string \<times> string list) list \<Rightarrow> string list \<Rightarrow> outcome \<Rightarrow> bool" where
  "cli_contract modes argv r =
     (case map_of modes (mode_of argv) of
        None \<Rightarrow> r = Exit [Usage] 1
      | Some tests \<Rightarrow> r = Exit (map Test tests) 0)"

definition good_env :: env where
  "good_env = \<lparr>alloc_ok = (\<lambda>k. True), returns = (\<lambda>t. True)\<rparr>"

definition no_memory :: env where
  "no_memory = \<lparr>alloc_ok = (\<lambda>k. False), returns = (\<lambda>t. True)\<rparr>"

text \<open>
  The machine that refuses CPU 8, seen from \<^verbatim>\<open>main\<close>: in dcache_contention.c the
  worker bound to CPU 8 returns before it increments the ready counter, and
  \<^verbatim>\<open>run_dual_thread(0, 8, ...)\<close> polls the counter forever.
\<close>

definition cpu8_refused :: env where
  "cpu8_refused =
     \<lparr>alloc_ok = (\<lambda>k. True), returns = (\<lambda>t. t \<noteq> ''run_dual_thread(0, 8)'')\<rparr>"

section \<open>Matrix multiplication (matrix_prefetch.c)\<close>

text \<open>
  \<^verbatim>\<open>for (int i = i0; i < n; i += stride) body\<close>. With a stride of 0 the loop of the source
  does not end; the function then has no value.
\<close>

partial_function (option) for_step ::
  "nat \<Rightarrow> nat \<Rightarrow> nat \<Rightarrow> (nat \<Rightarrow> 's \<Rightarrow> 's option) \<Rightarrow> 's \<Rightarrow> 's option" where
  "for_step i n stride body s =
     (if i < n then Option.bind (body i s) (\<lambda>t. for_step (i + stride) n stride body t)
      else Some s)"

declare for_step.simps [code]

text \<open>
  The matrices are flat arrays of \<open>n * n\<close> elements, row-major. The element type and its
  addition and multiplication are parameters, and nothing is assumed about them: the
  source computes in \<^verbatim>\<open>double\<close>, where addition is not associative.

  \<^verbatim>\<open>for (int k = lo; k < hi; k++) sum += A[i * N + k] * B[k * N + j];\<close>
\<close>

definition dot_range ::
  "('a \<Rightarrow> 'a \<Rightarrow> 'a) \<Rightarrow> ('a \<Rightarrow> 'a \<Rightarrow> 'a) \<Rightarrow> nat \<Rightarrow> 'a list \<Rightarrow> 'a list \<Rightarrow>
   nat \<Rightarrow> nat \<Rightarrow> nat \<Rightarrow> nat \<Rightarrow> 'a \<Rightarrow> 'a" where
  "dot_range add mul n A B i j lo hi sum0 =
     fold (\<lambda>k s. add s (mul (A ! (i * n + k)) (B ! (k * n + j)))) [lo..<hi] sum0"

definition matmul_naive ::
  "('a \<Rightarrow> 'a \<Rightarrow> 'a) \<Rightarrow> ('a \<Rightarrow> 'a \<Rightarrow> 'a) \<Rightarrow> 'a \<Rightarrow> nat \<Rightarrow> 'a list \<Rightarrow> 'a list \<Rightarrow>
   'a list \<Rightarrow> 'a list" where
  "matmul_naive add mul zero n A B C =
     fold (\<lambda>i C. fold (\<lambda>j C. C[i * n + j := dot_range add mul n A B i j 0 n zero]) [0..<n] C)
       [0..<n] C"

text \<open>
  One block of \<^verbatim>\<open>matmul_blocked\<close>: the three inner loops, whose conditions
  \<^verbatim>\<open>i < ii + BLOCK_SIZE && i < N\<close> bound the index by the smaller of the two.
\<close>

definition block ::
  "('a \<Rightarrow> 'a \<Rightarrow> 'a) \<Rightarrow> ('a \<Rightarrow> 'a \<Rightarrow> 'a) \<Rightarrow> nat \<Rightarrow> nat \<Rightarrow> 'a list \<Rightarrow> 'a list \<Rightarrow>
   nat \<Rightarrow> nat \<Rightarrow> nat \<Rightarrow> 'a list \<Rightarrow> 'a list" where
  "block add mul bs n A B ii jj kk C =
     fold (\<lambda>i C. fold (\<lambda>j C.
         C[i * n + j := dot_range add mul n A B i j kk (min (kk + bs) n) (C ! (i * n + j))])
       [jj..<min (jj + bs) n] C)
       [ii..<min (ii + bs) n] C"

definition matmul_blocked ::
  "('a \<Rightarrow> 'a \<Rightarrow> 'a) \<Rightarrow> ('a \<Rightarrow> 'a \<Rightarrow> 'a) \<Rightarrow> nat \<Rightarrow> nat \<Rightarrow> 'a list \<Rightarrow> 'a list \<Rightarrow>
   'a list \<Rightarrow> 'a list option" where
  "matmul_blocked add mul bs n A B C =
     for_step 0 n bs (\<lambda>ii C.
       for_step 0 n bs (\<lambda>jj C.
         for_step 0 n bs (\<lambda>kk C. Some (block add mul bs n A B ii jj kk C)) C) C) C"

text \<open>\<^verbatim>\<open>zero_matrix\<close>: \<^verbatim>\<open>memset(M, 0, N * N * sizeof(double))\<close>.\<close>

definition zero_matrix :: "nat \<Rightarrow> 'a \<Rightarrow> 'a list" where
  "zero_matrix n zero = replicate (n * n) zero"

definition MATRIX_N :: nat where
  "MATRIX_N = 1024"

definition BLOCK_SIZE :: nat where
  "BLOCK_SIZE = 64"

text \<open>A pointwise update of the cells in the given rows and columns.\<close>

definition rect_update :: "(nat \<Rightarrow> nat \<Rightarrow> 'a \<Rightarrow> 'a) \<Rightarrow> nat \<Rightarrow> nat list \<Rightarrow> nat list \<Rightarrow> 'a list \<Rightarrow> 'a list" where
  "rect_update f n rows cols C =
     fold (\<lambda>i C. fold (\<lambda>j C. C[i * n + j := f i j (C ! (i * n + j))]) cols C) rows C"

text \<open>
  How many products are summed in cell \<open>(i, j)\<close> when \<^verbatim>\<open>matmul_blocked\<close> is about to
  run block \<open>(ii, jj, kk)\<close>, and the matrix in which every cell holds the sum of its
  first \<open>m i j\<close> products, added in ascending order of \<open>k\<close> starting from zero.
\<close>

definition progress :: "nat \<Rightarrow> nat \<Rightarrow> nat \<Rightarrow> nat \<Rightarrow> nat \<Rightarrow> nat \<Rightarrow> nat \<Rightarrow> nat" where
  "progress bs n ii jj kk i j =
     (if i < ii then n
      else if i < ii + bs then (if j < jj then n else if j < jj + bs then min kk n else 0)
      else 0)"

definition cells ::
  "('a \<Rightarrow> 'a \<Rightarrow> 'a) \<Rightarrow> ('a \<Rightarrow> 'a \<Rightarrow> 'a) \<Rightarrow> 'a \<Rightarrow> nat \<Rightarrow> 'a list \<Rightarrow> 'a list \<Rightarrow>
   (nat \<Rightarrow> nat \<Rightarrow> nat) \<Rightarrow> 'a list \<Rightarrow> bool" where
  "cells add mul zero n A B m C =
     (length C = n * n \<and>
      (\<forall>i<n. \<forall>j<n. C ! (i * n + j) = dot_range add mul n A B i j 0 (m i j) zero))"

section \<open>Properties\<close>

subsection \<open>The padded counter layout\<close>

lemma per_thread_size: "csize per_thread_type = 64"
  by (simp add: per_thread_type_def per_thread_members_def struct_type_def uint64_t_def
      char_array_def CACHE_LINE_SIZE_def align_up_def)

lemma good_counter_addr_eq: "good_counter_addr base i = base + i * 64"
  by (simp add: good_counter_addr_def per_thread_size)
    (simp add: per_thread_members_def uint64_t_def align_up_def)

text \<open>
  Claim C4. The stride of the padded layout, the size of one element of
  \<^verbatim>\<open>good_counters.per_thread\<close>, is at least one cache line, and for an object aligned
  to the cache-line size the counters of two different elements lie in different cache
  lines.
\<close>

theorem padded_counters_in_different_cache_lines:
  "CACHE_LINE_SIZE \<le> csize per_thread_type \<and>
   (base mod CACHE_LINE_SIZE = 0 \<longrightarrow> i \<noteq> j \<longrightarrow>
      cache_line (good_counter_addr base i) \<noteq> cache_line (good_counter_addr base j))"
  by (simp add: per_thread_size good_counter_addr_eq cache_line_def CACHE_LINE_SIZE_def)

theorem padded_counters_witness:
  "CACHE_LINE_SIZE \<le> csize per_thread_type \<and>
   cache_line (good_counter_addr 4096 0) \<noteq> cache_line (good_counter_addr 4096 3)"
  using padded_counters_in_different_cache_lines [of 4096 0 3]
  by (simp add: CACHE_LINE_SIZE_def)

subsection \<open>Counted loops\<close>

lemma for_range_0: "for_range 0 body s = Inr s"
  by (simp add: for_range_def)

lemma for_range_Suc:
  "for_range (Suc n) body s =
     (case for_range n body s of Inl e \<Rightarrow> Inl e | Inr t \<Rightarrow> body n t)"
  by (simp add: for_range_def)

lemma for_range_rel:
  assumes "\<And>i s t. i < n \<Longrightarrow> R s t \<Longrightarrow> rel_sum (=) R (b1 i s) (b2 i t)"
    and "R s t"
  shows "rel_sum (=) R (for_range n b1 s) (for_range n b2 t)"
  using assms(1)
proof (induction n)
  case 0
  show ?case using assms(2) by (simp add: for_range_0)
next
  case (Suc n)
  have ih: "rel_sum (=) R (for_range n b1 s) (for_range n b2 t)"
    using Suc by simp
  show ?case
  proof (cases "for_range n b1 s")
    case (Inl e)
    with ih show ?thesis by (cases "for_range n b2 t") (simp_all add: for_range_Suc)
  next
    case (Inr u)
    with ih obtain v where v: "for_range n b2 t = Inr v" "R u v"
      by (cases "for_range n b2 t") simp_all
    from Suc.prems [of n u v] v(2) have "rel_sum (=) R (b1 n u) (b2 n v)" by simp
    with Inr v(1) show ?thesis by (simp add: for_range_Suc)
  qed
qed

lemma for_range_cong_bodies:
  assumes "\<And>i s. i < n \<Longrightarrow> b1 i s = b2 i s"
  shows "for_range n b1 s = for_range n b2 s"
  using assms
proof (induction n)
  case 0
  show ?case by (simp add: for_range_0)
next
  case (Suc n)
  then have "for_range n b1 s = for_range n b2 s" by simp
  with Suc.prems [of n] show ?case
    by (simp add: for_range_Suc split: sum.splits)
qed

lemma observable_rel:
  "rel_sum (=) same_result r1 r2 \<Longrightarrow> observable r1 = observable r2"
  by (cases r1; cases r2) (simp_all add: observable_def same_result_def)

lemma add_element_rel:
  "same_result s t \<Longrightarrow> rel_sum (=) same_result (add_element i (PREFETCH h a s)) (add_element i t)"
  by (simp add: add_element_def PREFETCH_def read_at_def same_result_def)

lemma add_indexed_rel:
  "same_result s t \<Longrightarrow> rel_sum (=) same_result (add_indexed ix i (PREFETCH h a s)) (add_indexed ix i t)"
  by (simp add: add_indexed_def add_element_rel read_at_def)

lemma same_result_start: "same_result (start_state arr) (start_state arr)"
  by (simp add: same_result_def)

lemma sequential_rel:
  "rel_sum (=) same_result (sequential_with_prefetch it el d arr) (sequential_no_prefetch it el arr)"
  unfolding sequential_with_prefetch_def sequential_no_prefetch_def
  by (intro for_range_rel add_element_rel same_result_start)

lemma random_rel:
  assumes "n + ahead \<le> length ix"
  shows "rel_sum (=) same_result (random_with_prefetch n ahead arr ix) (random_no_prefetch n arr ix)"
  unfolding random_with_prefetch_def random_no_prefetch_def
proof (rule for_range_rel)
  show "same_result (start_state arr) (start_state arr)" by (rule same_result_start)
next
  fix i s t
  assume "i < n" and st: "same_result s t"
  then have "i + ahead < length ix" using assms by simp
  then show "rel_sum (=) same_result
      (case prefetch_indexed T0 ix (i + ahead) s of Inl e \<Rightarrow> Inl e | Inr s' \<Rightarrow> add_indexed ix i s')
      (add_indexed ix i t)"
    using st by (simp add: prefetch_indexed_def read_at_def add_indexed_rel)
qed

subsection \<open>The sequential scan of the identity arena\<close>

lemma init_array_prefix:
  fixes buf :: "u64 list"
  shows "k \<le> length buf \<Longrightarrow>
   for_range k (\<lambda>i a. if i < length a then Inr (a[i := word_of_nat i]) else Inl (ArrayOutOfBounds i)) buf
     = Inr (map word_of_nat [0..<k] @ drop k buf)"
proof (induction k)
  case 0
  show ?case by (simp add: for_range_0)
next
  case (Suc k)
  then have len: "k < length buf" by simp
  have "(map word_of_nat [0..<k] @ drop k buf)[k := word_of_nat k]
      = map word_of_nat [0..<k] @ (word_of_nat k :: u64) # drop (Suc k) buf"
    using len by (simp add: list_update_append Cons_nth_drop_Suc [symmetric])
  with Suc len show ?case by (simp add: for_range_Suc)
qed

lemma init_array_identity:
  "length buf = elements \<Longrightarrow> init_array elements buf = Inr (identity_array elements)"
  by (simp add: init_array_def identity_array_def init_array_prefix)

lemma one_pass:
  "k \<le> length (warray s) \<Longrightarrow>
   for_range k add_element s = Inr (s\<lparr>wsum := wsum s + sum_list (take k (warray s))\<rparr>)"
proof (induction k)
  case 0
  show ?case by (simp add: for_range_0)
next
  case (Suc k)
  then show ?case
    by (simp add: for_range_Suc add_element_def read_at_def take_Suc_conv_app_nth add.assoc)
qed

lemma passes:
  "n \<le> length (warray s) \<Longrightarrow>
   for_range it (\<lambda>iter. for_range n add_element) s
     = Inr (s\<lparr>wsum := wsum s + word_of_nat it * sum_list (take n (warray s))\<rparr>)"
proof (induction it)
  case 0
  show ?case by (simp add: for_range_0)
next
  case (Suc it)
  then show ?case
    by (simp add: for_range_Suc one_pass algebra_simps)
qed

lemma sum_upt: "2 * sum_list [0..<n] = n * (n - 1)"
  by (induction n) (auto simp: algebra_simps)

lemma sum_identity_array: "sum_list (identity_array n) = closed_form_sum n"
proof -
  have "sum_list (identity_array n) = (word_of_nat (sum_list [0..<n]) :: u64)"
    unfolding identity_array_def by (induction n) simp_all
  moreover have "sum_list [0..<n] = n * (n - 1) div 2"
    using sum_upt [of n] by simp
  ultimately show ?thesis by (simp add: closed_form_sum_def)
qed

lemma scan_identity:
  "for_range it (\<lambda>iter. for_range n add_element) (start_state (identity_array n))
     = Inr \<lparr>wsum = word_of_nat it * closed_form_sum n, warray = identity_array n, wlog = []\<rparr>"
proof -
  have "length (identity_array n) = n" by (simp add: identity_array_def)
  then show ?thesis
    using passes [of n "start_state (identity_array n)" it]
    by (simp add: start_state_def sum_identity_array)
qed

text \<open>
  Claim C6, as amended. On the arena initialised with \<^verbatim>\<open>array[i] = i\<close>, both
  \<^verbatim>\<open>no_prefetch\<close> (prefetch_hints.c) and \<^verbatim>\<open>sequential_no_prefetch\<close>
  (sequential_prefetch.c) scan the arena \<^verbatim>\<open>ITERATIONS\<close> times and return
  \<^verbatim>\<open>ITERATIONS\<close> times the closed-form sum of \<open>0, \<dots>, elements - 1\<close>, in 64-bit
  arithmetic; the arena is unchanged.
\<close>

theorem sequential_scan_sum:
  "length buf = elements \<longrightarrow>
     init_array elements buf = Inr (identity_array elements) \<and>
     observable (no_prefetch iterations elements (identity_array elements))
       = Inr (word_of_nat iterations * closed_form_sum elements, identity_array elements) \<and>
     observable (sequential_no_prefetch iterations elements (identity_array elements))
       = Inr (word_of_nat iterations * closed_form_sum elements, identity_array elements)"
  by (simp add: init_array_identity no_prefetch_def sequential_no_prefetch_def scan_identity
      observable_def)

lemma closed_form_hints: "closed_form_sum HINTS_ELEMENTS = 140737479966720"
  by (simp add: closed_form_sum_def HINTS_ELEMENTS_def HINTS_ARRAY_SIZE_def uint64_t_def)

text \<open>
  With the constants of prefetch_hints.c (a 128 MB arena, 3 iterations) the value that
  \<^verbatim>\<open>no_prefetch\<close> returns is not the closed-form sum itself.
\<close>

theorem sequential_scan_not_single_sum:
  "init_array HINTS_ELEMENTS (replicate HINTS_ELEMENTS 0) = Inr (identity_array HINTS_ELEMENTS) \<and>
   observable (no_prefetch HINTS_ITERATIONS HINTS_ELEMENTS (identity_array HINTS_ELEMENTS))
     \<noteq> Inr (closed_form_sum HINTS_ELEMENTS, identity_array HINTS_ELEMENTS)"
proof -
  have "word_of_nat HINTS_ITERATIONS * closed_form_sum HINTS_ELEMENTS \<noteq> closed_form_sum HINTS_ELEMENTS"
    by (simp add: closed_form_hints HINTS_ITERATIONS_def)
  then show ?thesis
    by (simp add: init_array_identity no_prefetch_def scan_identity observable_def)
qed

theorem sequential_scan_sum_witness:
  "length [7, 7, 7, 7 :: u64] = 4 \<and>
   init_array 4 [7, 7, 7, 7] = Inr [0, 1, 2, 3] \<and>
   observable (no_prefetch 3 4 [0, 1, 2, 3]) = Inr (18, [0, 1, 2, 3]) \<and>
   observable (sequential_no_prefetch 5 4 [0, 1, 2, 3]) = Inr (30, [0, 1, 2, 3])"
proof -
  have "identity_array 4 = [0, 1, 2, 3]" by code_simp
  moreover have "closed_form_sum 4 = 6" by code_simp
  ultimately show ?thesis
    using sequential_scan_sum [of "[7, 7, 7, 7]" 4 3] sequential_scan_sum [of "[7, 7, 7, 7]" 4 5]
    by simp
qed

subsection \<open>The generated index sequence\<close>

lemma gen_step_eq:
  fixes xs :: "u64 list"
  assumes "(word_of_nat elements :: u64) \<noteq> 0" and "k < length xs"
  shows "gen_step elements k ((lcg_next ^^ k) 12345, xs)
      = Inr ((lcg_next ^^ Suc k) 12345, xs[k := nth_index elements k])"
  using assms by (simp add: gen_step_def lcg_index_def nth_index_def)

lemma gen_prefix:
  fixes buf :: "u64 list"
  assumes "(word_of_nat elements :: u64) \<noteq> 0"
  shows "k \<le> length buf \<Longrightarrow>
    for_range k (gen_step elements) (12345, buf)
      = Inr ((lcg_next ^^ k) 12345, map (nth_index elements) [0..<k] @ drop k buf)"
proof (induction k)
  case 0
  show ?case by (simp add: for_range_0)
next
  case (Suc k)
  then have len: "k < length buf" by simp
  have upd: "(map (nth_index elements) [0..<k] @ drop k buf)[k := nth_index elements k]
      = map (nth_index elements) [0..<k] @ nth_index elements k # drop (Suc k) buf"
    using len by (simp add: list_update_append Cons_nth_drop_Suc [symmetric])
  have "for_range (Suc k) (gen_step elements) (12345, buf)
      = gen_step elements k ((lcg_next ^^ k) 12345, map (nth_index elements) [0..<k] @ drop k buf)"
    using Suc len by (simp add: for_range_Suc)
  also have "\<dots> = Inr ((lcg_next ^^ Suc k) 12345,
      (map (nth_index elements) [0..<k] @ drop k buf)[k := nth_index elements k])"
    using assms len by (intro gen_step_eq) simp_all
  finally show ?case by (simp add: upd)
qed

lemma generate_eq:
  fixes buf :: "u64 list"
  assumes "(word_of_nat elements :: u64) \<noteq> 0" and "count \<le> length buf"
  shows "generate_random_indices count elements buf
      = Inr (map (nth_index elements) [0..<count] @ drop count buf)"
  using assms by (simp add: generate_random_indices_def gen_prefix)

lemma read_generated:
  fixes buf :: "u64 list"
  assumes "i < count" and "count \<le> length buf"
  shows "read_at oob (map (nth_index elements) [0..<count] @ drop count buf) i
      = Inr (nth_index elements i)"
  using assms by (simp add: read_at_def nth_append)

lemma add_indexed_generated:
  fixes buf :: "u64 list"
  assumes "i < count" and "count \<le> length buf"
  shows "add_indexed (map (nth_index elements) [0..<count] @ drop count buf) i s
      = add_element (unat (nth_index elements i)) s"
  using assms by (simp add: add_indexed_def read_generated)

lemma prefetch_indexed_generated:
  fixes buf :: "u64 list"
  assumes "i < count" and "count \<le> length buf"
  shows "prefetch_indexed h (map (nth_index elements) [0..<count] @ drop count buf) i s
      = Inr (PREFETCH h (unat (nth_index elements i)) s)"
  using assms by (simp add: prefetch_indexed_def read_generated)

text \<open>
  Claim C2. For every arena, \<^verbatim>\<open>sequential_with_prefetch\<close> returns the checksum and
  leaves the arena that \<^verbatim>\<open>sequential_no_prefetch\<close> does, and so does
  \<^verbatim>\<open>random_with_prefetch\<close> with respect to \<^verbatim>\<open>random_no_prefetch\<close> whenever the
  index buffer holds the \<open>access_count + ahead\<close> entries the prefetching loop reads:
  the prefetch hints change the hint log only. The program's buffer of
  \<^verbatim>\<open>ACCESS_COUNT + PREFETCH_AHEAD + 1\<close> entries, filled by
  \<^verbatim>\<open>generate_random_indices\<close>, is such a buffer, whatever it held before.
\<close>

theorem prefetch_preserves_results:
  fixes buf :: "u64 list"
  shows "observable (sequential_with_prefetch iterations elements distance arr) =
     observable (sequential_no_prefetch iterations elements arr) \<and>
   (access_count + ahead \<le> length indices \<longrightarrow>
      observable (random_with_prefetch access_count ahead arr indices) =
        observable (random_no_prefetch access_count arr indices)) \<and>
   (length buf = ACCESS_COUNT + PREFETCH_AHEAD + 1 \<longrightarrow>
      (\<exists>ix. generate_random_indices (ACCESS_COUNT + PREFETCH_AHEAD) RANDOM_ELEMENTS buf = Inr ix \<and>
         observable (random_with_prefetch ACCESS_COUNT PREFETCH_AHEAD arr ix) =
           observable (random_no_prefetch ACCESS_COUNT arr ix)))"
proof -
  have "\<exists>ix. generate_random_indices (ACCESS_COUNT + PREFETCH_AHEAD) RANDOM_ELEMENTS buf = Inr ix \<and>
      observable (random_with_prefetch ACCESS_COUNT PREFETCH_AHEAD arr ix) =
        observable (random_no_prefetch ACCESS_COUNT arr ix)"
    if len: "length buf = ACCESS_COUNT + PREFETCH_AHEAD + 1"
  proof -
    let ?c = "ACCESS_COUNT + PREFETCH_AHEAD"
    let ?ix = "map (nth_index RANDOM_ELEMENTS) [0..<?c] @ drop ?c buf"
    have nz: "(word_of_nat RANDOM_ELEMENTS :: u64) \<noteq> 0"
      by (simp add: RANDOM_ELEMENTS_def RANDOM_ARRAY_SIZE_def uint64_t_def)
    have "generate_random_indices ?c RANDOM_ELEMENTS buf = Inr ?ix"
      using len by (intro generate_eq nz) simp
    moreover have "?c \<le> length ?ix" using len by simp
    then have "observable (random_with_prefetch ACCESS_COUNT PREFETCH_AHEAD arr ?ix) =
        observable (random_no_prefetch ACCESS_COUNT arr ?ix)"
      by (intro observable_rel random_rel)
    ultimately show ?thesis by blast
  qed
  then show ?thesis by (simp add: observable_rel sequential_rel random_rel)
qed

theorem prefetch_preserves_results_witness:
  "observable (sequential_with_prefetch 2 4 16 [10, 20, 30, 40]) = Inr (200, [10, 20, 30, 40]) \<and>
   observable (random_with_prefetch 3 2 [10, 20, 30, 40] [3, 1, 0, 2, 1]) = Inr (70, [10, 20, 30, 40])"
proof -
  have "observable (sequential_no_prefetch 2 4 [10, 20, 30, 40]) = Inr (200, [10, 20, 30, 40])"
    by code_simp
  moreover have "observable (random_no_prefetch 3 [10, 20, 30, 40] [3, 1, 0, 2, 1])
      = Inr (70, [10, 20, 30, 40])"
    by code_simp
  ultimately show ?thesis
    using prefetch_preserves_results [of 2 4 16 "[10, 20, 30, 40]" 3 2 "[3, 1, 0, 2, 1]" "[]"]
    by simp
qed

text \<open>
  Claim C7. Two invocations of \<^verbatim>\<open>generate_random_indices\<close>, on whatever the two
  freshly allocated buffers held before, both succeed and write the same sequence of
  indices, the one given by the seed 12345 and the generator's step; the random-access
  workloads that read only generated entries then return the same checksum, arena and
  hint log on the same arena.
\<close>

theorem random_indices_deterministic:
  fixes buf1 buf2 :: "u64 list"
  shows "(word_of_nat elements :: u64) \<noteq> 0 \<and> count \<le> length buf1 \<and> count \<le> length buf2 \<longrightarrow>
    (\<exists>ix1 ix2.
       generate_random_indices count elements buf1 = Inr ix1 \<and>
       generate_random_indices count elements buf2 = Inr ix2 \<and>
       take count ix1 = map (nth_index elements) [0..<count] \<and>
       take count ix2 = take count ix1 \<and>
       (n \<le> count \<longrightarrow> random_no_prefetch n arr ix1 = random_no_prefetch n arr ix2) \<and>
       (n + ahead \<le> count \<longrightarrow>
          random_with_prefetch n ahead arr ix1 = random_with_prefetch n ahead arr ix2))"
proof (intro impI, elim conjE)
  assume el: "(word_of_nat elements :: u64) \<noteq> 0"
    and l1: "count \<le> length buf1" and l2: "count \<le> length buf2"
  let ?g1 = "map (nth_index elements) [0..<count] @ drop count buf1"
  let ?g2 = "map (nth_index elements) [0..<count] @ drop count buf2"
  have a: "random_no_prefetch n arr ?g1 = random_no_prefetch n arr ?g2" if "n \<le> count"
    unfolding random_no_prefetch_def
  proof (rule for_range_cong_bodies)
    fix i s
    assume "i < n"
    with that have "i < count" by simp
    then show "add_indexed ?g1 i s = add_indexed ?g2 i s"
      using l1 l2 by (simp add: add_indexed_generated)
  qed
  have b: "random_with_prefetch n ahead arr ?g1 = random_with_prefetch n ahead arr ?g2"
    if "n + ahead \<le> count"
    unfolding random_with_prefetch_def
  proof (rule for_range_cong_bodies)
    fix i s
    assume "i < n"
    with that have "i < count" and "i + ahead < count" by simp_all
    then show "(case prefetch_indexed T0 ?g1 (i + ahead) s of Inl e \<Rightarrow> Inl e
          | Inr s' \<Rightarrow> add_indexed ?g1 i s')
        = (case prefetch_indexed T0 ?g2 (i + ahead) s of Inl e \<Rightarrow> Inl e
          | Inr s' \<Rightarrow> add_indexed ?g2 i s')"
      using l1 l2 by (simp add: add_indexed_generated prefetch_indexed_generated)
  qed
  show "\<exists>ix1 ix2.
       generate_random_indices count elements buf1 = Inr ix1 \<and>
       generate_random_indices count elements buf2 = Inr ix2 \<and>
       take count ix1 = map (nth_index elements) [0..<count] \<and>
       take count ix2 = take count ix1 \<and>
       (n \<le> count \<longrightarrow> random_no_prefetch n arr ix1 = random_no_prefetch n arr ix2) \<and>
       (n + ahead \<le> count \<longrightarrow>
          random_with_prefetch n ahead arr ix1 = random_with_prefetch n ahead arr ix2)"
    using a b el l1 l2 by (simp add: generate_eq)
qed

theorem random_indices_deterministic_witness:
  "generate_random_indices 5 4 [9, 9, 9, 9, 9, 9] = Inr [0, 0, 1, 2, 3, 9] \<and>
   generate_random_indices 5 4 [1, 2, 3, 4, 5, 6] = Inr [0, 0, 1, 2, 3, 6] \<and>
   random_no_prefetch 3 [10, 20, 30, 40] [0, 0, 1, 2, 3, 9]
     = random_no_prefetch 3 [10, 20, 30, 40] [0, 0, 1, 2, 3, 6] \<and>
   random_with_prefetch 3 2 [10, 20, 30, 40] [0, 0, 1, 2, 3, 9]
     = random_with_prefetch 3 2 [10, 20, 30, 40] [0, 0, 1, 2, 3, 6]"
proof -
  have g1: "generate_random_indices 5 4 [9, 9, 9, 9, 9, 9] = Inr [0, 0, 1, 2, 3, 9]"
    by code_simp
  have g2: "generate_random_indices 5 4 [1, 2, 3, 4, 5, 6] = Inr [0, 0, 1, 2, 3, 6]"
    by code_simp
  have nz: "(word_of_nat 4 :: u64) \<noteq> 0" by simp
  from random_indices_deterministic
    [of 4 5 "[9, 9, 9, 9, 9, 9]" "[1, 2, 3, 4, 5, 6]" 3 "[10, 20, 30, 40]" 2] nz
  show ?thesis by (simp add: g1 g2)
qed

subsection \<open>The reads of the index buffer\<close>

lemma for_range_error_sticky:
  "for_range k body s = Inl e \<Longrightarrow> k \<le> n \<Longrightarrow> for_range n body s = Inl e"
proof (induction n)
  case 0
  then show ?case by simp
next
  case (Suc n)
  show ?case
  proof (cases "k = Suc n")
    case True
    with Suc.prems show ?thesis by simp
  next
    case False
    with Suc have "for_range n body s = Inl e" by simp
    then show ?thesis by (simp add: for_range_Suc)
  qed
qed

lemma multi_body_ok:
  assumes "i + 16 < length ix" and "unat (ix ! i) < length (warray s)"
  shows "\<exists>t. multi_body ix i s = Inr t \<and> warray t = warray s"
  using assms
  by (simp add: multi_body_def prefetch_indexed_def add_indexed_def add_element_def read_at_def
      PREFETCH_def)

lemma multi_body_oob:
  assumes "i + 16 = length ix"
  shows "multi_body ix i s = Inl (IndexOutOfBounds (length ix))"
  using assms
  by (simp add: multi_body_def prefetch_indexed_def read_at_def)

lemma multi_prefix_ok:
  assumes "\<forall>i<k. unat (ix ! i) < length arr" and "k + 15 < length ix"
  shows "\<exists>t. for_range k (multi_body ix) (start_state arr) = Inr t \<and> warray t = arr"
  using assms
proof (induction k)
  case 0
  show ?case by (simp add: for_range_0 start_state_def)
next
  case (Suc k)
  then obtain t where t: "for_range k (multi_body ix) (start_state arr) = Inr t" "warray t = arr"
    by auto
  from Suc.prems t(2) have "k + 16 < length ix" "unat (ix ! k) < length (warray t)" by simp_all
  from multi_body_ok [OF this] t show ?case by (simp add: for_range_Suc)
qed

lemma multi_prefetch_overrun:
  assumes "16 \<le> length ix" and "length ix < n + 16"
    and "\<forall>i<length ix - 16. unat (ix ! i) < length arr"
  shows "random_with_multi_prefetch n arr ix = Inl (IndexOutOfBounds (length ix))"
proof -
  let ?k = "length ix - 16"
  from assms(1) have "?k + 15 < length ix" by simp
  from multi_prefix_ok [OF assms(3) this]
  obtain t where t: "for_range ?k (multi_body ix) (start_state arr) = Inr t"
    by blast
  have "multi_body ix ?k t = Inl (IndexOutOfBounds (length ix))"
    using assms(1) by (intro multi_body_oob) simp
  with t have "for_range (Suc ?k) (multi_body ix) (start_state arr)
      = Inl (IndexOutOfBounds (length ix))"
    by (simp add: for_range_Suc)
  moreover have "Suc ?k \<le> n" using assms(1,2) by simp
  ultimately have "for_range n (multi_body ix) (start_state arr) = Inl (IndexOutOfBounds (length ix))"
    by (rule for_range_error_sticky)
  then show ?thesis
    by (simp add: random_with_multi_prefetch_def)
qed

lemma nth_index_bound:
  assumes "0 < elements" and "elements < 2 ^ 64"
  shows "unat (nth_index elements i) < elements"
proof -
  have u: "unat (word_of_nat elements :: u64) = elements"
    using assms(2) by (simp add: unat_of_nat)
  have "unat (nth_index elements i)
      = unat (drop_bit 16 ((lcg_next ^^ Suc i) 12345)) mod elements"
    unfolding nth_index_def by (simp only: unat_mod u)
  then show ?thesis using assms(1) by simp
qed

lemma random_elements_value: "RANDOM_ELEMENTS = 8388608"
  by (simp add: RANDOM_ELEMENTS_def RANDOM_ARRAY_SIZE_def uint64_t_def)

lemma multi_prefetch_program:
  fixes buf :: "u64 list"
  assumes "length buf = ACCESS_COUNT + PREFETCH_AHEAD + 1" and "length arr = RANDOM_ELEMENTS"
  shows "random_prefetch_multi arr buf = Inl (IndexOutOfBounds (ACCESS_COUNT + PREFETCH_AHEAD + 1))"
proof -
  let ?c = "ACCESS_COUNT + PREFETCH_AHEAD"
  let ?ix = "map (nth_index RANDOM_ELEMENTS) [0..<?c] @ drop ?c buf"
  have nz: "(word_of_nat RANDOM_ELEMENTS :: u64) \<noteq> 0"
    by (simp add: random_elements_value)
  have gen: "generate_random_indices ?c RANDOM_ELEMENTS buf = Inr ?ix"
    using assms(1) by (intro generate_eq nz) simp
  have len: "length ?ix = ?c + 1" using assms(1) by simp
  have big: "16 \<le> ACCESS_COUNT" by (simp add: ACCESS_COUNT_def)
  have pa: "PREFETCH_AHEAD = 8" by (simp add: PREFETCH_AHEAD_def)
  have bound: "\<forall>i<length ?ix - 16. unat (?ix ! i) < length arr"
  proof (intro allI impI)
    fix i
    assume "i < length ?ix - 16"
    with len pa have "i < ?c" by simp
    then have "?ix ! i = nth_index RANDOM_ELEMENTS i" by (simp add: nth_append)
    moreover have "unat (nth_index RANDOM_ELEMENTS i) < RANDOM_ELEMENTS"
      by (rule nth_index_bound) (simp_all add: random_elements_value)
    ultimately show "unat (?ix ! i) < length arr" using assms(2) by simp
  qed
  have "random_with_multi_prefetch ACCESS_COUNT arr ?ix = Inl (IndexOutOfBounds (length ?ix))"
    using len pa big by (intro multi_prefetch_overrun bound) simp_all
  with gen len show ?thesis by (simp add: random_prefetch_multi_def)
qed

text \<open>
  Claim C9 fails on the code. With the program's constants, the buffer of
  \<^verbatim>\<open>ACCESS_COUNT + PREFETCH_AHEAD + 1\<close> entries and the arena of
  \<^verbatim>\<open>RANDOM_ELEMENTS\<close> elements, \<^verbatim>\<open>random_with_multi_prefetch\<close> reads
  \<^verbatim>\<open>indices[i + 16]\<close> at the index \<^verbatim>\<open>ACCESS_COUNT + PREFETCH_AHEAD + 1\<close>, the first
  one past the end of the buffer.
\<close>

theorem multi_prefetch_reads_past_buffer:
  "random_prefetch_multi (identity_array RANDOM_ELEMENTS)
      (replicate (ACCESS_COUNT + PREFETCH_AHEAD + 1) 0)
     = Inl (IndexOutOfBounds (ACCESS_COUNT + PREFETCH_AHEAD + 1))"
  by (rule multi_prefetch_program) (simp_all add: identity_array_def)

subsection \<open>The barrier protocol\<close>

lemma all_ones:
  "\<forall>x \<in> set xs. x \<le> (1::nat) \<Longrightarrow> length xs \<le> sum_list xs \<Longrightarrow> \<forall>x \<in> set xs. x = 1"
proof (induction xs)
  case Nil
  show ?case by simp
next
  case (Cons x xs)
  have "sum_list xs \<le> length xs"
    using Cons.prems(1) by (induction xs) (auto simp: le_Suc_eq)
  with Cons show ?case by (auto simp: le_Suc_eq)
qed

lemma sum_le_length:
  "\<forall>x \<in> set xs. x \<le> (1::nat) \<Longrightarrow> sum_list xs \<le> length xs"
  by (induction xs) (auto simp: le_Suc_eq)

lemma inv_initial: "barrier_inv cfg (initial cfg)"
  by (simp add: barrier_inv_def initial_def released_def worker_ok_def new_worker_def
      incremented_def polled_def not_yet_created_def)

lemma set_update_cases:
  "w \<in> set (xs[i := y]) \<Longrightarrow> w = y \<or> w \<in> set xs"
  using set_update_subset_insert [of xs i y] by auto

lemma sum_increments_update:
  assumes "i < length ws"
  shows "sum_list (map increments (ws[i := w])) + increments (ws ! i)
       = sum_list (map increments ws) + increments w"
  using assms
proof (induction ws arbitrary: i)
  case Nil
  then show ?case by simp
next
  case (Cons a ws)
  then show ?case by (cases i) (simp_all add: add.assoc add.left_commute)
qed

lemma inv_worker_ok:
  "barrier_inv cfg s \<Longrightarrow> w \<in> set (workers s) \<Longrightarrow> worker_ok (start s) (driver s) w"
  unfolding barrier_inv_def by blast

lemma inv_start:
  "barrier_inv cfg s \<Longrightarrow> start s = (if released (driver s) then 1 else 0)"
  unfolding barrier_inv_def by blast

lemma inv_update:
  assumes inv: "barrier_inv cfg s" and i: "i < length (workers s)"
    and ok: "worker_ok (start s) (driver s) w"
    and incs: "increments w = increments (workers s ! i)"
    and cr: "\<And>k. driver s = Creating k \<Longrightarrow> pc w = NotCreated \<or> i < k"
  shows "barrier_inv cfg (set_worker i w s)"
proof -
  have "sum_list (map increments ((workers s)[i := w])) = sum_list (map increments (workers s))"
    using sum_increments_update [OF i, of w] incs by simp
  moreover have "\<forall>v \<in> set ((workers s)[i := w]). worker_ok (start s) (driver s) v"
    using inv_worker_ok [OF inv] ok by (auto dest: set_update_cases)
  moreover have "not_yet_created (driver s) ((workers s)[i := w])"
    using inv cr i
    by (auto simp: barrier_inv_def not_yet_created_def nth_list_update split: dpc.splits)
  ultimately show ?thesis
    using inv by (simp add: barrier_inv_def set_worker_def)
qed

lemma inv_worker_thread:
  assumes inv: "barrier_inv cfg s"
  shows "barrier_inv cfg (worker_thread cfg i s)"
proof (cases "i < length (workers s)")
  case False
  with inv show ?thesis by (simp add: worker_thread_def)
next
  case i: True
  let ?w = "workers s ! i"
  have mem: "?w \<in> set (workers s)" using i by simp
  with inv have ok: "worker_ok (start s) (driver s) ?w" by (rule inv_worker_ok)
  have nc: "\<And>k. driver s = Creating k \<Longrightarrow> pc ?w = NotCreated \<or> i < k"
    using inv i by (fastforce simp: barrier_inv_def not_yet_created_def)
  show ?thesis
  proof (cases "pc ?w")
    case NotCreated
    with i inv show ?thesis by (simp add: worker_thread_def)
  next
    case AtBind
    have "barrier_inv cfg (set_worker i (?w\<lparr>pc := Aborted, binds := binds ?w + 1\<rparr>) s)"
      using ok AtBind nc
      by (intro inv_update [OF inv i]) (auto simp: worker_ok_def incremented_def)
    moreover have "barrier_inv cfg (set_worker i (?w\<lparr>pc := AtIncrement, binds := binds ?w + 1,
        pinned := (bind_to_cpu (sched_setaffinity cfg) (cpu_of cfg i) = 0)\<rparr>) s)"
      using ok AtBind nc
      by (intro inv_update [OF inv i]) (auto simp: worker_ok_def incremented_def)
    ultimately show ?thesis using i AtBind by (simp add: worker_thread_def)
  next
    case AtIncrement
    let ?w' = "?w\<lparr>pc := AtSpin, increments := increments ?w + 1\<rparr>"
    have z: "increments ?w = 0" using ok AtIncrement by (simp add: worker_ok_def incremented_def)
    have "sum_list (map increments ((workers s)[i := ?w']))
        = sum_list (map increments (workers s)) + 1"
      using sum_increments_update [OF i, of ?w'] z by simp
    moreover have "\<forall>v \<in> set ((workers s)[i := ?w']). worker_ok (start s) (driver s) v"
      using inv_worker_ok [OF inv] ok AtIncrement
      by (auto simp: worker_ok_def incremented_def dest!: set_update_cases)
    moreover have "not_yet_created (driver s) ((workers s)[i := ?w'])"
      using inv nc i AtIncrement
      by (auto simp: barrier_inv_def not_yet_created_def nth_list_update split: dpc.splits)
    ultimately have "barrier_inv cfg (set_worker i ?w' (s\<lparr>ready := ready s + 1\<rparr>))"
      using inv by (simp add: barrier_inv_def set_worker_def)
    then show ?thesis using i AtIncrement by (simp add: worker_thread_def)
  next
    case AtSpin
    have "start s \<noteq> 0 \<Longrightarrow> start s = 1"
      using inv_start [OF inv] by (simp split: if_splits)
    then have "start s \<noteq> 0 \<Longrightarrow> barrier_inv cfg (set_worker i (?w\<lparr>pc := AtWork\<rparr>) s)"
      using ok AtSpin nc
      by (intro inv_update [OF inv i]) (auto simp: worker_ok_def incremented_def)
    then show ?thesis using i AtSpin inv by (simp add: worker_thread_def)
  next
    case AtWork
    have "barrier_inv cfg (set_worker i (?w\<lparr>pc := Finished, recorded := True\<rparr>) s)"
      using ok AtWork nc
      by (intro inv_update [OF inv i]) (auto simp: worker_ok_def incremented_def)
    then show ?thesis using i AtWork by (simp add: worker_thread_def)
  next
    case Finished
    with i inv show ?thesis by (simp add: worker_thread_def)
  next
    case Aborted
    with i inv show ?thesis by (simp add: worker_thread_def)
  qed
qed

lemma inv_length: "barrier_inv cfg s \<Longrightarrow> length (workers s) = nworkers cfg"
  by (simp add: barrier_inv_def)

lemma inv_ready: "barrier_inv cfg s \<Longrightarrow> ready s = int (sum_list (map increments (workers s)))"
  by (simp add: barrier_inv_def)

lemma inv_start_writes:
  "barrier_inv cfg s \<Longrightarrow> start_writes s = (if released (driver s) then 1 else 0)"
  by (simp add: barrier_inv_def)

lemma inv_not_yet_created: "barrier_inv cfg s \<Longrightarrow> not_yet_created (driver s) (workers s)"
  by (simp add: barrier_inv_def)

lemma barrier_invI:
  assumes "length (workers s) = nworkers cfg"
    and "ready s = int (sum_list (map increments (workers s)))"
    and "start s = (if released (driver s) then 1 else 0)"
    and "start_writes s = (if released (driver s) then 1 else 0)"
    and "not_yet_created (driver s) (workers s)"
    and "\<And>w. w \<in> set (workers s) \<Longrightarrow> worker_ok (start s) (driver s) w"
  shows "barrier_inv cfg s"
  unfolding barrier_inv_def
proof (intro conjI ballI)
  show "length (workers s) = nworkers cfg" by (rule assms(1))
  show "ready s = int (sum_list (map increments (workers s)))" by (rule assms(2))
  show "start s = (if released (driver s) then 1 else 0)" by (rule assms(3))
  show "start_writes s = (if released (driver s) then 1 else 0)" by (rule assms(4))
  show "not_yet_created (driver s) (workers s)" by (rule assms(5))
  show "worker_ok (start s) (driver s) w" if "w \<in> set (workers s)" for w
    using that by (rule assms(6))
qed

lemma worker_ok_le: "worker_ok st d v \<Longrightarrow> increments v \<le> 1"
  unfolding worker_ok_def by (cases "incremented v") simp_all

lemma worker_ok_one: "worker_ok st d v \<Longrightarrow> increments v = 1 \<Longrightarrow> incremented v"
  unfolding worker_ok_def by (cases "incremented v") simp_all

lemma all_incremented:
  assumes inv: "barrier_inv cfg s" and full: "\<not> ready s < int (nworkers cfg)"
    and w: "w \<in> set (workers s)"
  shows "incremented w"
proof -
  let ?xs = "map increments (workers s)"
  have le: "\<forall>x \<in> set ?xs. x \<le> 1"
  proof -
    have "increments v \<le> 1" if "v \<in> set (workers s)" for v
      using inv_worker_ok [OF inv that] by (rule worker_ok_le)
    then show ?thesis by simp
  qed
  have "length ?xs \<le> sum_list ?xs"
    using full inv_ready [OF inv] inv_length [OF inv] by simp
  with le have "\<forall>x \<in> set ?xs. x = 1" by (rule all_ones)
  with w have "increments w = 1" by simp
  with inv_worker_ok [OF inv w] show ?thesis by (rule worker_ok_one)
qed

lemma inv_run_dual_thread:
  assumes inv: "barrier_inv cfg s"
  shows "barrier_inv cfg (run_dual_thread cfg s)"
proof (cases "driver s")
  case (Creating k)
  show ?thesis
  proof (cases "k < nworkers cfg")
    case True
    let ?w = "workers s ! k"
    let ?w' = "?w\<lparr>pc := AtBind\<rparr>"
    have k: "k < length (workers s)" using True inv_length [OF inv] by simp
    have fresh: "pc ?w = NotCreated"
      using inv_not_yet_created [OF inv] Creating k by (simp add: not_yet_created_def)
    have ok: "worker_ok (start s) (driver s) ?w" using inv k by (intro inv_worker_ok) simp_all
    have ok': "worker_ok (start s) (Creating (k + 1)) ?w'"
      using ok fresh by (simp add: worker_ok_def incremented_def polled_def released_def)
    have sum: "sum_list (map increments ((workers s)[k := ?w'])) = sum_list (map increments (workers s))"
      using sum_increments_update [OF k, of ?w'] by simp
    have "barrier_inv cfg ((set_worker k ?w' s)\<lparr>driver := Creating (k + 1)\<rparr>)"
    proof (rule barrier_invI)
      fix w
      assume "w \<in> set (workers ((set_worker k ?w' s)\<lparr>driver := Creating (k + 1)\<rparr>))"
      then have "w = ?w' \<or> w \<in> set (workers s)"
        by (auto simp: set_worker_def dest: set_update_cases)
      moreover have "worker_ok (start s) (Creating (k + 1)) v" if "v \<in> set (workers s)" for v
        using inv_worker_ok [OF inv that] Creating
        by (simp add: worker_ok_def polled_def released_def)
      ultimately show "worker_ok (start ((set_worker k ?w' s)\<lparr>driver := Creating (k + 1)\<rparr>))
          (driver ((set_worker k ?w' s)\<lparr>driver := Creating (k + 1)\<rparr>)) w"
        using ok' by (auto simp: set_worker_def)
    next
      show "not_yet_created (driver ((set_worker k ?w' s)\<lparr>driver := Creating (k + 1)\<rparr>))
          (workers ((set_worker k ?w' s)\<lparr>driver := Creating (k + 1)\<rparr>))"
        using inv_not_yet_created [OF inv] Creating
        by (simp add: not_yet_created_def set_worker_def nth_list_update)
    qed (use inv_length [OF inv] inv_ready [OF inv] inv_start [OF inv] inv_start_writes [OF inv]
        Creating sum in \<open>simp_all add: set_worker_def released_def\<close>)
    with Creating True show ?thesis by (simp add: run_dual_thread_def)
  next
    case False
    have "barrier_inv cfg (s\<lparr>driver := Polling\<rparr>)"
    proof (rule barrier_invI)
      fix w
      assume "w \<in> set (workers (s\<lparr>driver := Polling\<rparr>))"
      then have "worker_ok (start s) (driver s) w" using inv by (intro inv_worker_ok) simp_all
      then show "worker_ok (start (s\<lparr>driver := Polling\<rparr>)) (driver (s\<lparr>driver := Polling\<rparr>)) w"
        using Creating by (simp add: worker_ok_def polled_def released_def)
    qed (use inv_length [OF inv] inv_ready [OF inv] inv_start [OF inv] inv_start_writes [OF inv]
        Creating in \<open>simp_all add: released_def not_yet_created_def\<close>)
    with Creating False show ?thesis by (simp add: run_dual_thread_def)
  qed
next
  case Polling
  show ?thesis
  proof (cases "ready s < int (nworkers cfg)")
    case True
    with Polling inv show ?thesis by (simp add: run_dual_thread_def)
  next
    case False
    have "barrier_inv cfg (s\<lparr>driver := Releasing\<rparr>)"
    proof (rule barrier_invI)
      fix w
      assume "w \<in> set (workers (s\<lparr>driver := Releasing\<rparr>))"
      then have w: "w \<in> set (workers s)" by simp
      from all_incremented [OF inv False w] inv_worker_ok [OF inv w]
      show "worker_ok (start (s\<lparr>driver := Releasing\<rparr>)) (driver (s\<lparr>driver := Releasing\<rparr>)) w"
        by (simp add: worker_ok_def)
    qed (use inv_length [OF inv] inv_ready [OF inv] inv_start [OF inv] inv_start_writes [OF inv]
        Polling in \<open>simp_all add: released_def not_yet_created_def\<close>)
    with Polling False show ?thesis by (simp add: run_dual_thread_def)
  qed
next
  case Releasing
  have "barrier_inv cfg (s\<lparr>start := 1, start_writes := start_writes s + 1, driver := Joining 0\<rparr>)"
  proof (rule barrier_invI)
    fix w
    assume "w \<in> set (workers (s\<lparr>start := 1, start_writes := start_writes s + 1, driver := Joining 0\<rparr>))"
    then have w: "w \<in> set (workers s)" by simp
    from inv_worker_ok [OF inv w] Releasing
    show "worker_ok (start (s\<lparr>start := 1, start_writes := start_writes s + 1, driver := Joining 0\<rparr>))
        (driver (s\<lparr>start := 1, start_writes := start_writes s + 1, driver := Joining 0\<rparr>)) w"
      by (simp add: worker_ok_def polled_def)
  qed (use inv_length [OF inv] inv_ready [OF inv] inv_start [OF inv] inv_start_writes [OF inv]
      Releasing in \<open>simp_all add: released_def not_yet_created_def\<close>)
  with Releasing show ?thesis by (simp add: run_dual_thread_def)
next
  case (Joining k)
  have "barrier_inv cfg (s\<lparr>driver := d\<rparr>)" if "d = Joining (k + 1) \<or> d = Returned" for d
  proof (rule barrier_invI)
    fix w
    assume "w \<in> set (workers (s\<lparr>driver := d\<rparr>))"
    then have w: "w \<in> set (workers s)" by simp
    from inv_worker_ok [OF inv w] Joining that
    show "worker_ok (start (s\<lparr>driver := d\<rparr>)) (driver (s\<lparr>driver := d\<rparr>)) w"
      by (auto simp: worker_ok_def polled_def released_def)
  qed (use inv_length [OF inv] inv_ready [OF inv] inv_start [OF inv] inv_start_writes [OF inv]
      Joining that in \<open>auto simp: released_def not_yet_created_def\<close>)
  with Joining inv show ?thesis by (simp add: run_dual_thread_def)
next
  case Returned
  with inv show ?thesis by (simp add: run_dual_thread_def)
qed

lemma inv_step: "barrier_inv cfg s \<Longrightarrow> barrier_inv cfg (step cfg t s)"
  by (cases t) (simp_all add: step_def inv_run_dual_thread inv_worker_thread)

lemma inv_fold: "barrier_inv cfg s \<Longrightarrow> barrier_inv cfg (fold (step cfg) schedule s)"
  by (induction schedule arbitrary: s) (simp_all add: inv_step)

lemma inv_run: "barrier_inv cfg (run cfg schedule)"
  by (simp add: run_def inv_fold inv_initial)

lemma sum_all_ones: "\<forall>x \<in> set xs. x = (1::nat) \<Longrightarrow> sum_list xs = length xs"
  by (induction xs) simp_all

lemma polled_ready:
  assumes inv: "barrier_inv cfg s" and p: "polled (driver s)"
  shows "ready s = int (nworkers cfg)"
proof -
  have "increments v = 1" if "v \<in> set (workers s)" for v
    using inv_worker_ok [OF inv that] p unfolding worker_ok_def by (cases "incremented v") simp_all
  then have "sum_list (map increments (workers s)) = length (map increments (workers s))"
    by (intro sum_all_ones) simp
  with inv_ready [OF inv] inv_length [OF inv] show ?thesis by simp
qed

lemma worker_facts:
  assumes "worker_ok st d w"
  shows "increments w \<le> 1"
    and "pc w = AtSpin \<or> pc w = AtWork \<or> pc w = Finished \<Longrightarrow> increments w = 1 \<and> binds w = 1"
    and "pc w = AtWork \<or> pc w = Finished \<Longrightarrow> st = 1"
    and "polled d \<Longrightarrow> increments w = 1"
  using assms unfolding worker_ok_def incremented_def by auto

lemma worker_order:
  assumes "worker_ok st d w"
  shows "binds w \<le> 1" and "increments w \<le> binds w"
    and "pc w = NotCreated \<or> pc w = AtBind \<Longrightarrow> binds w = 0 \<and> increments w = 0"
    and "pc w = AtIncrement \<or> pc w = Aborted \<Longrightarrow> binds w = 1 \<and> increments w = 0"
    and "polled d \<Longrightarrow> binds w = 1"
  using assms unfolding worker_ok_def incremented_def by (cases "pc w"; simp)+

text \<open>
  Claim C1. In every state that a run of the barrier protocol reaches, for any number of
  workers, any outcome of the affinity calls and any interleaving of the threads: the
  start flag is 0 and was never written, or it is 1, was written exactly once and the
  ready counter equals the worker count; the driver stands before its write of the
  start flag only when the ready counter equals the worker count; when the driver
  stands before that write or the start flag is 1, every worker has called
  \<^verbatim>\<open>bind_to_cpu\<close> once and incremented once. Every worker calls \<^verbatim>\<open>bind_to_cpu\<close>
  at most once and increments the ready counter at most once, and never increments
  before it has called \<^verbatim>\<open>bind_to_cpu\<close>: before its call it has neither bound nor
  incremented, between the call and the increment (or when it has returned early) it
  has bound once and not incremented, and when it spins on the start flag or is past
  it, it has bound once and incremented once. No worker is in or past its timed region
  unless the start flag is 1; and when the driver has joined all workers the ready
  counter is exactly the worker count, the start flag is exactly 1 and every worker
  has incremented once.
\<close>

theorem barrier_protocol:
  "s = run cfg schedule \<Longrightarrow>
   (start s = 0 \<and> start_writes s = 0 \<or>
    start s = 1 \<and> start_writes s = 1 \<and> ready s = int (nworkers cfg)) \<and>
   (driver s = Releasing \<longrightarrow> ready s = int (nworkers cfg)) \<and>
   (driver s = Releasing \<or> start s = 1 \<longrightarrow>
      (\<forall>i<nworkers cfg. binds (workers s ! i) = 1 \<and> increments (workers s ! i) = 1)) \<and>
   (\<forall>i<nworkers cfg.
      increments (workers s ! i) \<le> 1 \<and>
      binds (workers s ! i) \<le> 1 \<and>
      increments (workers s ! i) \<le> binds (workers s ! i) \<and>
      (pc (workers s ! i) = NotCreated \<or> pc (workers s ! i) = AtBind
         \<longrightarrow> binds (workers s ! i) = 0 \<and> increments (workers s ! i) = 0) \<and>
      (pc (workers s ! i) = AtIncrement \<or> pc (workers s ! i) = Aborted
         \<longrightarrow> binds (workers s ! i) = 1 \<and> increments (workers s ! i) = 0) \<and>
      (pc (workers s ! i) = AtSpin \<or> pc (workers s ! i) = AtWork \<or> pc (workers s ! i) = Finished
         \<longrightarrow> increments (workers s ! i) = 1 \<and> binds (workers s ! i) = 1) \<and>
      (pc (workers s ! i) = AtWork \<or> pc (workers s ! i) = Finished \<longrightarrow> start s = 1)) \<and>
   (driver s = Returned \<longrightarrow>
      ready s = int (nworkers cfg) \<and> start s = 1 \<and> start_writes s = 1 \<and>
      (\<forall>i<nworkers cfg. increments (workers s ! i) = 1))"
proof -
  assume s: "s = run cfg schedule"
  have inv: "barrier_inv cfg s" unfolding s by (rule inv_run)
  have ok: "worker_ok (start s) (driver s) (workers s ! i)" if "i < nworkers cfg" for i
    using that inv_length [OF inv] by (intro inv_worker_ok [OF inv]) simp
  have a: "start s = 0 \<and> start_writes s = 0 \<or>
      start s = 1 \<and> start_writes s = 1 \<and> ready s = int (nworkers cfg)"
  proof (cases "released (driver s)")
    case True
    then have "polled (driver s)" by (simp add: polled_def)
    from polled_ready [OF inv this] True inv_start [OF inv] inv_start_writes [OF inv]
    show ?thesis by simp
  next
    case False
    with inv_start [OF inv] inv_start_writes [OF inv] show ?thesis by simp
  qed
  have b: "driver s = Releasing \<longrightarrow> ready s = int (nworkers cfg)"
    using polled_ready [OF inv] by (simp add: polled_def)
  have b': "driver s = Releasing \<or> start s = 1 \<longrightarrow>
      (\<forall>i<nworkers cfg. binds (workers s ! i) = 1 \<and> increments (workers s ! i) = 1)"
  proof
    assume "driver s = Releasing \<or> start s = 1"
    then have p: "polled (driver s)"
      using inv_start [OF inv] by (auto simp: polled_def split: if_splits)
    from worker_order(5) [OF ok p] worker_facts(4) [OF ok p]
    show "\<forall>i<nworkers cfg. binds (workers s ! i) = 1 \<and> increments (workers s ! i) = 1"
      by blast
  qed
  have c: "\<forall>i<nworkers cfg.
      increments (workers s ! i) \<le> 1 \<and>
      binds (workers s ! i) \<le> 1 \<and>
      increments (workers s ! i) \<le> binds (workers s ! i) \<and>
      (pc (workers s ! i) = NotCreated \<or> pc (workers s ! i) = AtBind
         \<longrightarrow> binds (workers s ! i) = 0 \<and> increments (workers s ! i) = 0) \<and>
      (pc (workers s ! i) = AtIncrement \<or> pc (workers s ! i) = Aborted
         \<longrightarrow> binds (workers s ! i) = 1 \<and> increments (workers s ! i) = 0) \<and>
      (pc (workers s ! i) = AtSpin \<or> pc (workers s ! i) = AtWork \<or> pc (workers s ! i) = Finished
         \<longrightarrow> increments (workers s ! i) = 1 \<and> binds (workers s ! i) = 1) \<and>
      (pc (workers s ! i) = AtWork \<or> pc (workers s ! i) = Finished \<longrightarrow> start s = 1)"
  proof (intro allI impI)
    fix i
    assume i: "i < nworkers cfg"
    note f = worker_facts(1-3) [OF ok [OF i]] and g = worker_order(1-4) [OF ok [OF i]]
    show "increments (workers s ! i) \<le> 1 \<and>
      binds (workers s ! i) \<le> 1 \<and>
      increments (workers s ! i) \<le> binds (workers s ! i) \<and>
      (pc (workers s ! i) = NotCreated \<or> pc (workers s ! i) = AtBind
         \<longrightarrow> binds (workers s ! i) = 0 \<and> increments (workers s ! i) = 0) \<and>
      (pc (workers s ! i) = AtIncrement \<or> pc (workers s ! i) = Aborted
         \<longrightarrow> binds (workers s ! i) = 1 \<and> increments (workers s ! i) = 0) \<and>
      (pc (workers s ! i) = AtSpin \<or> pc (workers s ! i) = AtWork \<or> pc (workers s ! i) = Finished
         \<longrightarrow> increments (workers s ! i) = 1 \<and> binds (workers s ! i) = 1) \<and>
      (pc (workers s ! i) = AtWork \<or> pc (workers s ! i) = Finished \<longrightarrow> start s = 1)"
      using f g by blast
  qed
  have d: "driver s = Returned \<longrightarrow>
      ready s = int (nworkers cfg) \<and> start s = 1 \<and> start_writes s = 1 \<and>
      (\<forall>i<nworkers cfg. increments (workers s ! i) = 1)"
  proof
    assume r: "driver s = Returned"
    then have p: "polled (driver s)" and rel: "released (driver s)"
      by (simp_all add: polled_def released_def)
    from worker_facts(4) [OF ok p] have "\<forall>i<nworkers cfg. increments (workers s ! i) = 1"
      by blast
    with polled_ready [OF inv p] rel inv_start [OF inv] inv_start_writes [OF inv]
    show "ready s = int (nworkers cfg) \<and> start s = 1 \<and> start_writes s = 1 \<and>
      (\<forall>i<nworkers cfg. increments (workers s ! i) = 1)"
      by simp
  qed
  from a b b' c d show ?thesis by blast
qed

theorem barrier_protocol_witness:
  "driver (run (same_core_config all_cpus_online False) fair_schedule) = Returned \<and>
   ready (run (same_core_config all_cpus_online False) fair_schedule) = 2 \<and>
   start (run (same_core_config all_cpus_online False) fair_schedule) = 1 \<and>
   start_writes (run (same_core_config all_cpus_online False) fair_schedule) = 1 \<and>
   increments (workers (run (same_core_config all_cpus_online False) fair_schedule) ! 0) = 1 \<and>
   increments (workers (run (same_core_config all_cpus_online False) fair_schedule) ! 1) = 1 \<and>
   binds (workers (run (same_core_config all_cpus_online False) fair_schedule) ! 0) = 1 \<and>
   binds (workers (run (same_core_config all_cpus_online False) fair_schedule) ! 1) = 1 \<and>
   pc (workers (run (same_core_config all_cpus_online False) (take 4 fair_schedule)) ! 0)
     = AtIncrement \<and>
   binds (workers (run (same_core_config all_cpus_online False) (take 4 fair_schedule)) ! 0) = 1 \<and>
   increments (workers (run (same_core_config all_cpus_online False) (take 4 fair_schedule)) ! 0)
     = 0 \<and>
   start (run (same_core_config all_cpus_online False) (take 4 fair_schedule)) = 0"
proof -
  have r: "driver (run (same_core_config all_cpus_online False) fair_schedule) = Returned"
    by code_simp
  have q: "pc (workers (run (same_core_config all_cpus_online False) (take 4 fair_schedule)) ! 0)
      = AtIncrement"
    by code_simp
  have z: "start (run (same_core_config all_cpus_online False) (take 4 fair_schedule)) = 0"
    by code_simp
  have n: "nworkers (same_core_config all_cpus_online False) = 2"
    by (simp add: same_core_config_def)
  from barrier_protocol [OF refl, of "same_core_config all_cpus_online False" fair_schedule]
    barrier_protocol [OF refl, of "same_core_config all_cpus_online False" "take 4 fair_schedule"]
    r q z n
  show ?thesis by simp
qed

text \<open>
  Claim C3 fails on the code. In latency_hiding.c (and false_sharing.c, icache_contention.c,
  shared_cache.c, combined_test.c) \<^verbatim>\<open>worker_thread\<close> ignores what
  \<^verbatim>\<open>bind_to_cpu\<close> returns: when CPU 8 cannot be bound, the second worker of
  \<^verbatim>\<open>run_dual_thread(0, 8, ...)\<close> still passes the barrier, runs unpinned and records
  its timed result. Only the worker of dcache_contention.c returns on the failure, as
  the last two conjuncts show.
\<close>

theorem unpinned_worker_is_timed:
  "bind_to_cpu cpu8_offline 8 = - 1 \<and>
   driver (run (same_core_config cpu8_offline False) fair_schedule) = Returned \<and>
   pinned (workers (run (same_core_config cpu8_offline False) fair_schedule) ! 1) = False \<and>
   recorded (workers (run (same_core_config cpu8_offline False) fair_schedule) ! 1) = True \<and>
   pc (workers (run (same_core_config cpu8_offline True) fair_schedule) ! 1) = Aborted \<and>
   recorded (workers (run (same_core_config cpu8_offline True) fair_schedule) ! 1) = False"
  by code_simp

lemma held_back_other:
  assumes "held_back i s" and "j \<noteq> i"
  shows "held_back i (set_worker j w s)" and "held_back i (set_worker j w (s\<lparr>ready := r\<rparr>))"
  using assms by (simp_all add: held_back_def set_worker_def)

lemma held_back_worker_thread:
  assumes chk: "checks_bind cfg"
    and fail: "bind_to_cpu (sched_setaffinity cfg) (cpu_of cfg i) \<noteq> 0"
    and h: "held_back i s"
  shows "held_back i (worker_thread cfg j s)"
proof (cases "j = i")
  case True
  from h have "pc (workers s ! i) = NotCreated \<or> pc (workers s ! i) = AtBind \<or>
      pc (workers s ! i) = Aborted" and len: "i < length (workers s)"
    by (simp_all add: held_back_def)
  then show ?thesis
  proof (elim disjE)
    assume "pc (workers s ! i) = NotCreated"
    with True h show ?thesis by (simp add: worker_thread_def)
  next
    assume "pc (workers s ! i) = AtBind"
    with True len chk fail show ?thesis
      by (simp add: worker_thread_def held_back_def set_worker_def)
  next
    assume "pc (workers s ! i) = Aborted"
    with True h show ?thesis by (simp add: worker_thread_def)
  qed
next
  case False
  show ?thesis
  proof (cases "j < length (workers s)")
    case False
    with h show ?thesis by (simp add: worker_thread_def)
  next
    case True
    with h \<open>j \<noteq> i\<close> show ?thesis
      by (cases "pc (workers s ! j)")
        (simp_all add: worker_thread_def held_back_other)
  qed
qed

lemma held_back_run_dual_thread:
  assumes h: "held_back i s"
  shows "held_back i (run_dual_thread cfg s)"
proof (cases "driver s")
  case (Creating k)
  from h have "held_back i ((set_worker k ((workers s ! k)\<lparr>pc := AtBind\<rparr>) s)
      \<lparr>driver := Creating (k + 1)\<rparr>)"
    by (cases "k = i") (simp_all add: held_back_def set_worker_def)
  moreover from h have "held_back i (s\<lparr>driver := Polling\<rparr>)" by (simp add: held_back_def)
  ultimately show ?thesis using Creating by (simp add: run_dual_thread_def)
next
  case Polling
  with h show ?thesis by (simp add: run_dual_thread_def held_back_def)
next
  case Releasing
  with h show ?thesis by (simp add: run_dual_thread_def held_back_def)
next
  case (Joining k)
  with h show ?thesis by (simp add: run_dual_thread_def held_back_def)
next
  case Returned
  with h show ?thesis by (simp add: run_dual_thread_def)
qed

lemma held_back_fold:
  assumes "checks_bind cfg"
    and "bind_to_cpu (sched_setaffinity cfg) (cpu_of cfg i) \<noteq> 0"
  shows "held_back i s \<Longrightarrow> held_back i (fold (step cfg) schedule s)"
proof (induction schedule arbitrary: s)
  case Nil
  then show ?case by simp
next
  case (Cons t ts)
  have "held_back i (step cfg t s)"
    using Cons.prems assms
    by (cases t) (simp_all add: step_def held_back_run_dual_thread held_back_worker_thread)
  then show ?case using Cons.IH by simp
qed

text \<open>
  With the worker of dcache_contention.c, a worker whose \<^verbatim>\<open>bind_to_cpu\<close> fails never
  increments the ready counter: the driver never writes the start flag and never
  returns from the run, under any schedule.
\<close>

lemma failed_bind_blocks_driver:
  assumes "checks_bind cfg" and "i < nworkers cfg"
    and "bind_to_cpu (sched_setaffinity cfg) (cpu_of cfg i) \<noteq> 0"
  shows "driver (run cfg schedule) \<noteq> Returned \<and> start (run cfg schedule) = 0"
proof -
  let ?s = "run cfg schedule"
  have "held_back i (initial cfg)"
    using assms(2) by (simp add: held_back_def initial_def new_worker_def)
  then have h: "held_back i ?s"
    unfolding run_def by (rule held_back_fold [OF assms(1,3)])
  have inv: "barrier_inv cfg ?s" by (rule inv_run)
  from h have mem: "workers ?s ! i \<in> set (workers ?s)" by (simp add: held_back_def)
  from h have "\<not> incremented (workers ?s ! i)" by (auto simp: held_back_def incremented_def)
  with inv_worker_ok [OF inv mem] have np: "\<not> polled (driver ?s)"
    unfolding worker_ok_def by blast
  then have "driver ?s \<noteq> Returned" and "\<not> released (driver ?s)"
    by (auto simp: polled_def released_def)
  with inv_start [OF inv] show ?thesis by simp
qed

lemma dcache_same_core_never_returns:
  "driver (run (same_core_config cpu8_offline True) schedule) \<noteq> Returned"
  using failed_bind_blocks_driver [of "same_core_config cpu8_offline True" 1 schedule]
  by (simp add: same_core_config_def cpu8_offline_def bind_to_cpu_def)

subsection \<open>Command lines and allocation failures\<close>

lemma run_tests_all:
  "\<forall>t. returns e t \<Longrightarrow> run_tests e ts tr = Exit (tr @ map Test ts) 0"
  by (induction ts arbitrary: tr) simp_all

text \<open>
  Claim C5, as amended. When every allocation succeeds and every experiment returns:
  each of the eight programs that read a mode (false_sharing, dcache_contention,
  icache_contention, latency_hiding, shared_cache, sequential_prefetch, random_prefetch,
  matrix_prefetch) prints the usage line and exits with status 1 on an unrecognized
  mode, and on a recognized mode runs exactly the experiments of that mode, in their
  order, and exits with status 0; the three programs without modes (prefetch_hints,
  combined_test, prefetch_distance) run all their experiments and exit with status 0
  whatever the arguments are.
\<close>

theorem cli_modes:
  "(\<forall>k. alloc_ok e k) \<and> (\<forall>t. returns e t) \<longrightarrow>
   cli_contract false_sharing_modes argv (main_false_sharing e argv) \<and>
   cli_contract contention_modes argv (main_dcache_contention e argv) \<and>
   cli_contract contention_modes argv (main_icache_contention e argv) \<and>
   cli_contract latency_hiding_modes argv (main_latency_hiding e argv) \<and>
   cli_contract contention_modes argv (main_shared_cache e argv) \<and>
   cli_contract sequential_prefetch_modes argv (main_sequential_prefetch e argv) \<and>
   cli_contract random_prefetch_modes argv (main_random_prefetch e argv) \<and>
   cli_contract matrix_prefetch_modes argv (main_matrix_prefetch e argv) \<and>
   main_prefetch_hints e argv = Exit (map Test prefetch_hints_tests) 0 \<and>
   main_combined_test e argv = Exit (map Test combined_test_runs) 0 \<and>
   main_prefetch_distance e argv = Exit (map Test prefetch_distance_tests) 0"
proof
  assume a: "(\<forall>k. alloc_ok e k) \<and> (\<forall>t. returns e t)"
  then have ret: "\<And>t. returns e t" and al: "\<And>k. alloc_ok e k"
    by simp_all
  have 1: "cli_contract false_sharing_modes argv (main_false_sharing e argv)"
    by (simp add: cli_contract_def false_sharing_modes_def main_false_sharing_def ret)
  have 2: "cli_contract contention_modes argv (main_dcache_contention e argv)"
    by (simp add: cli_contract_def contention_modes_def main_dcache_contention_def ret al)
  have 3: "cli_contract contention_modes argv (main_icache_contention e argv)"
    by (simp add: cli_contract_def contention_modes_def main_icache_contention_def ret)
  have 4: "cli_contract latency_hiding_modes argv (main_latency_hiding e argv)"
    by (simp add: cli_contract_def latency_hiding_modes_def main_latency_hiding_def ret al)
  have 5: "cli_contract contention_modes argv (main_shared_cache e argv)"
    by (simp add: cli_contract_def contention_modes_def main_shared_cache_def ret)
  have 6: "cli_contract sequential_prefetch_modes argv (main_sequential_prefetch e argv)"
    by (simp add: cli_contract_def sequential_prefetch_modes_def main_sequential_prefetch_def
        ret al)
  have 7: "cli_contract random_prefetch_modes argv (main_random_prefetch e argv)"
    by (simp add: cli_contract_def random_prefetch_modes_def main_random_prefetch_def ret al)
  have 8: "cli_contract matrix_prefetch_modes argv (main_matrix_prefetch e argv)"
    by (simp add: cli_contract_def matrix_prefetch_modes_def main_matrix_prefetch_def ret al)
  have 9: "main_prefetch_hints e argv = Exit (map Test prefetch_hints_tests) 0"
    by (simp add: main_prefetch_hints_def prefetch_hints_tests_def ret al)
  have 10: "main_combined_test e argv = Exit (map Test combined_test_runs) 0"
    by (simp add: main_combined_test_def combined_test_runs_def ret al list_all_iff)
  have 11: "main_prefetch_distance e argv = Exit (map Test prefetch_distance_tests) 0"
    by (simp add: main_prefetch_distance_def prefetch_distance_tests_def ret al)
  from 1 2 3 4 5 6 7 8 9 10 11
  show "cli_contract false_sharing_modes argv (main_false_sharing e argv) \<and>
   cli_contract contention_modes argv (main_dcache_contention e argv) \<and>
   cli_contract contention_modes argv (main_icache_contention e argv) \<and>
   cli_contract latency_hiding_modes argv (main_latency_hiding e argv) \<and>
   cli_contract contention_modes argv (main_shared_cache e argv) \<and>
   cli_contract sequential_prefetch_modes argv (main_sequential_prefetch e argv) \<and>
   cli_contract random_prefetch_modes argv (main_random_prefetch e argv) \<and>
   cli_contract matrix_prefetch_modes argv (main_matrix_prefetch e argv) \<and>
   main_prefetch_hints e argv = Exit (map Test prefetch_hints_tests) 0 \<and>
   main_combined_test e argv = Exit (map Test combined_test_runs) 0 \<and>
   main_prefetch_distance e argv = Exit (map Test prefetch_distance_tests) 0"
    by blast
qed

text \<open>
  Claim C5 as stated fails. prefetch_hints never looks at its arguments: with an argument
  that is no mode of any program it prints no usage line, runs its five tests and exits
  with status 0. A recognized mode does not end in status 0 when the arena cannot be
  allocated. And a recognized mode does not end at all when an experiment does not
  return: \<^verbatim>\<open>--same-core\<close> of dcache_contention on the machine that refuses CPU 8, where
  by \<open>dcache_same_core_never_returns\<close> the driver of the run never returns.
\<close>

theorem unrecognized_argument_ignored:
  "mode_of [''prefetch_hints'', ''--bogus''] = ''--bogus'' \<and>
   main_prefetch_hints good_env [''prefetch_hints'', ''--bogus'']
     = Exit [Test ''run_test(no_prefetch)'', Test ''run_test(prefetch_t0)'',
         Test ''run_test(prefetch_t1)'', Test ''run_test(prefetch_t2)'',
         Test ''run_test(prefetch_nta)''] 0 \<and>
   main_latency_hiding no_memory [''latency_hiding'', ''--single''] = Exit [Perror] 1 \<and>
   main_dcache_contention cpu8_refused [''dcache_contention'', ''--same-core''] = NoReturn []"
  by (simp add: mode_of_def main_prefetch_hints_def main_latency_hiding_def
      main_dcache_contention_def good_env_def no_memory_def cpu8_refused_def)

theorem cli_modes_witness:
  "main_latency_hiding good_env [''latency_hiding'', ''--single'']
     = Exit [Test ''run_single_both()''] 0 \<and>
   main_latency_hiding good_env [''latency_hiding'', ''--fast''] = Exit [Usage] 1 \<and>
   main_false_sharing good_env [''false_sharing'', ''--bad''] = Exit [Test ''run_test(0)''] 0 \<and>
   main_random_prefetch good_env [''random_prefetch'']
     = Exit [Test ''run_test(random_no_prefetch)'', Test ''run_test(random_with_prefetch)'',
         Test ''run_test(random_with_multi_prefetch)''] 0 \<and>
   main_prefetch_hints good_env [''prefetch_hints'', ''--bogus'']
     = Exit [Test ''run_test(no_prefetch)'', Test ''run_test(prefetch_t0)'',
         Test ''run_test(prefetch_t1)'', Test ''run_test(prefetch_t2)'',
         Test ''run_test(prefetch_nta)''] 0"
proof -
  have g: "(\<forall>k. alloc_ok good_env k) \<and> (\<forall>t. returns good_env t)"
    by (simp add: good_env_def)
  from g cli_modes [of good_env "[''latency_hiding'', ''--single'']"]
  have 1: "cli_contract latency_hiding_modes [''latency_hiding'', ''--single'']
      (main_latency_hiding good_env [''latency_hiding'', ''--single''])"
    by blast
  from g cli_modes [of good_env "[''latency_hiding'', ''--fast'']"]
  have 2: "cli_contract latency_hiding_modes [''latency_hiding'', ''--fast'']
      (main_latency_hiding good_env [''latency_hiding'', ''--fast''])"
    by blast
  from g cli_modes [of good_env "[''false_sharing'', ''--bad'']"]
  have 3: "cli_contract false_sharing_modes [''false_sharing'', ''--bad'']
      (main_false_sharing good_env [''false_sharing'', ''--bad''])"
    by blast
  from g cli_modes [of good_env "[''random_prefetch'']"]
  have 4: "cli_contract random_prefetch_modes [''random_prefetch'']
      (main_random_prefetch good_env [''random_prefetch''])"
    by blast
  from g cli_modes [of good_env "[''prefetch_hints'', ''--bogus'']"]
  have 5: "main_prefetch_hints good_env [''prefetch_hints'', ''--bogus'']
      = Exit (map Test prefetch_hints_tests) 0"
    by blast
  from 1 2 3 4 5 show ?thesis
    by (simp add: cli_contract_def mode_of_def latency_hiding_modes_def false_sharing_modes_def
        random_prefetch_modes_def prefetch_hints_tests_def)
qed

text \<open>
  The programs that test what the allocator returned report the failure and exit with
  status 1 before any experiment.
\<close>

lemma allocation_failure_reported:
  "\<not> alloc_ok e 0 \<Longrightarrow>
   main_dcache_contention e argv = Exit [Perror] 1 \<and>
   main_latency_hiding e argv = Exit [Perror] 1 \<and>
   main_sequential_prefetch e argv = Exit [Perror] 1 \<and>
   main_random_prefetch e argv = Exit [Perror] 1 \<and>
   main_matrix_prefetch e argv = Exit [Perror] 1 \<and>
   main_prefetch_hints e argv = Exit [Perror] 1 \<and>
   main_prefetch_distance e argv = Exit [Perror] 1"
  by (simp add: main_dcache_contention_def main_latency_hiding_def main_sequential_prefetch_def
      main_random_prefetch_def main_matrix_prefetch_def main_prefetch_hints_def
      main_prefetch_distance_def)

text \<open>
  Claim C8 fails on the code. combined_test.c does not test the result of
  \<^verbatim>\<open>aligned_alloc\<close>: when the allocation fails, \<^verbatim>\<open>run_single\<close> passes the null
  pointer to \<^verbatim>\<open>memset\<close>, with no diagnostic and no exit status of the program's own,
  where latency_hiding.c and the other programs print the diagnostic and return 1.
\<close>

theorem combined_test_allocation_unchecked:
  "main_latency_hiding no_memory [''latency_hiding''] = Exit [Perror] 1 \<and>
   main_combined_test no_memory [''combined_test''] = NullDereference []"
  by (simp add: main_latency_hiding_def main_combined_test_def no_memory_def)

subsection \<open>Blocked and naive matrix multiplication\<close>

lemma idx_inj:
  fixes i j n :: nat
  assumes "j < n" and "j' < n"
  shows "(i * n + j = i' * n + j') = (i = i' \<and> j = j')"
proof
  assume eq: "i * n + j = i' * n + j'"
  have "(i * n + j) div n = i" "(i * n + j) mod n = j" using assms(1) by simp_all
  moreover have "(i' * n + j') div n = i'" "(i' * n + j') mod n = j'" using assms(2) by simp_all
  ultimately show "i = i' \<and> j = j'" using eq by metis
qed simp

lemma idx_bound:
  fixes i j n :: nat
  assumes "i < n" and "j < n"
  shows "i * n + j < n * n"
proof -
  have "i * n + j < i * n + n" using assms(2) by simp
  also have "\<dots> = Suc i * n" by simp
  also have "\<dots> \<le> n * n" using assms(1) by (metis Suc_leI mult_le_mono1)
  finally show ?thesis .
qed

lemma row_update:
  assumes "distinct cols" and "\<forall>j \<in> set cols. j < n" and "i < n" and "length C = n * n"
  shows "length (fold (\<lambda>j C. C[i * n + j := f i j (C ! (i * n + j))]) cols C) = n * n \<and>
    (\<forall>i'<n. \<forall>j'<n. fold (\<lambda>j C. C[i * n + j := f i j (C ! (i * n + j))]) cols C ! (i' * n + j')
       = (if i' = i \<and> j' \<in> set cols then f i j' (C ! (i' * n + j')) else C ! (i' * n + j')))"
  using assms
proof (induction cols arbitrary: C)
  case Nil
  then show ?case by simp
next
  case (Cons j js)
  let ?C1 = "C[i * n + j := f i j (C ! (i * n + j))]"
  have j: "j < n" and js: "distinct js" "\<forall>j \<in> set js. j < n" "j \<notin> set js"
    using Cons.prems by simp_all
  have len: "length ?C1 = n * n" using Cons.prems by simp
  note ih = Cons.IH [OF js(1,2) Cons.prems(3) len]
  have upd: "?C1 ! (i' * n + j') = (if i' = i \<and> j' = j then f i j (C ! (i * n + j)) else C ! (i' * n + j'))"
    if "i' < n" "j' < n" for i' j'
  proof -
    have "i * n + j < length C" using Cons.prems(3,4) j by (simp add: idx_bound)
    moreover have "(i * n + j = i' * n + j') = (i = i' \<and> j = j')"
      using j that(2) by (rule idx_inj)
    ultimately show ?thesis by (auto simp: nth_list_update)
  qed
  show ?case
  proof (intro conjI allI impI)
    show "length (fold (\<lambda>j C. C[i * n + j := f i j (C ! (i * n + j))]) (j # js) C) = n * n"
      using ih by simp
  next
    fix i' j'
    assume b: "i' < n" "j' < n"
    from ih b have "fold (\<lambda>j C. C[i * n + j := f i j (C ! (i * n + j))]) js ?C1 ! (i' * n + j')
        = (if i' = i \<and> j' \<in> set js then f i j' (?C1 ! (i' * n + j')) else ?C1 ! (i' * n + j'))"
      by blast
    then show "fold (\<lambda>j C. C[i * n + j := f i j (C ! (i * n + j))]) (j # js) C ! (i' * n + j')
        = (if i' = i \<and> j' \<in> set (j # js) then f i j' (C ! (i' * n + j')) else C ! (i' * n + j'))"
      using upd [OF b] js(3) by auto
  qed
qed

lemma rect_update_cells:
  assumes "distinct rows" and "\<forall>i \<in> set rows. i < n" and "distinct cols" and "\<forall>j \<in> set cols. j < n"
    and "length C = n * n"
  shows "length (rect_update f n rows cols C) = n * n \<and>
    (\<forall>i<n. \<forall>j<n. rect_update f n rows cols C ! (i * n + j)
       = (if i \<in> set rows \<and> j \<in> set cols then f i j (C ! (i * n + j)) else C ! (i * n + j)))"
  using assms(1,2,5)
proof (induction rows arbitrary: C)
  case Nil
  then show ?case by (simp add: rect_update_def)
next
  case (Cons r rs)
  let ?C1 = "fold (\<lambda>j C. C[r * n + j := f r j (C ! (r * n + j))]) cols C"
  have r: "r < n" "r \<notin> set rs" "distinct rs" "\<forall>i \<in> set rs. i < n" using Cons.prems by simp_all
  note row = row_update [OF assms(3,4) r(1) Cons.prems(3), of f]
  then have len: "length ?C1 = n * n" by blast
  note ih = Cons.IH [OF r(3,4) len]
  have unf: "rect_update f n (r # rs) cols C = rect_update f n rs cols ?C1"
    by (simp add: rect_update_def)
  show ?case
  proof (intro conjI allI impI)
    show "length (rect_update f n (r # rs) cols C) = n * n" using ih unf by simp
  next
    fix i j
    assume b: "i < n" "j < n"
    from ih b have "rect_update f n rs cols ?C1 ! (i * n + j)
        = (if i \<in> set rs \<and> j \<in> set cols then f i j (?C1 ! (i * n + j)) else ?C1 ! (i * n + j))"
      by blast
    moreover from row b have "?C1 ! (i * n + j)
        = (if i = r \<and> j \<in> set cols then f r j (C ! (i * n + j)) else C ! (i * n + j))"
      by blast
    ultimately show "rect_update f n (r # rs) cols C ! (i * n + j)
        = (if i \<in> set (r # rs) \<and> j \<in> set cols then f i j (C ! (i * n + j)) else C ! (i * n + j))"
      using unf r(2) by auto
  qed
qed

lemma for_step_inv:
  assumes "0 < stride" and "Inv i s"
    and "\<And>k t. k < n \<Longrightarrow> Inv k t \<Longrightarrow> \<exists>t'. body k t = Some t' \<and> Inv (k + stride) t'"
  shows "\<exists>t k. for_step i n stride body s = Some t \<and> n \<le> k \<and> Inv k t"
  using assms(2)
proof (induction "n - i" arbitrary: i s rule: less_induct)
  case less
  show ?case
  proof (cases "i < n")
    case False
    then have "for_step i n stride body s = Some s" by (simp add: for_step.simps)
    with False less.prems show ?thesis
      by (intro exI [of _ s] exI [of _ i]) simp
  next
    case True
    from assms(3) [OF True less.prems] obtain t' where
      t': "body i s = Some t'" "Inv (i + stride) t'" by blast
    have "n - (i + stride) < n - i" using True assms(1) by simp
    from less.hyps [OF this t'(2)] obtain t k where
      "for_step (i + stride) n stride body t' = Some t" "n \<le> k" "Inv k t" by blast
    moreover have "for_step i n stride body s = for_step (i + stride) n stride body t'"
      using True t'(1) by (subst for_step.simps) simp
    ultimately show ?thesis
      by (intro exI [of _ t] exI [of _ k]) simp
  qed
qed

lemma dot_range_append:
  assumes "lo \<le> mid" and "mid \<le> hi"
  shows "dot_range add mul n A B i j mid hi (dot_range add mul n A B i j lo mid s)
       = dot_range add mul n A B i j lo hi s"
proof -
  have "[lo..<hi] = [lo..<mid] @ [mid..<hi]"
    using assms by (metis le_Suc_ex upt_add_eq_append)
  then show ?thesis by (simp add: dot_range_def)
qed

lemma cells_unique:
  assumes "cells add mul zero n A B m C" and "cells add mul zero n A B m C'"
  shows "C = C'"
proof (rule nth_equalityI)
  show "length C = length C'" using assms by (simp add: cells_def)
next
  fix p
  assume "p < length C"
  then have p: "p < n * n" using assms(1) by (simp add: cells_def)
  then have n: "0 < n" by (cases n) simp_all
  have "p div n < n" using p by (simp add: less_mult_imp_div_less)
  moreover have "p mod n < n" using n by simp
  moreover have "p = p div n * n + p mod n" by simp
  ultimately show "C ! p = C' ! p" using assms unfolding cells_def by metis
qed

lemma cells_zero_matrix:
  "cells add mul zero n A B (progress bs n 0 0 0) (zero_matrix n zero)"
  by (simp add: cells_def zero_matrix_def progress_def dot_range_def idx_bound)

lemma block_as_rect:
  "block add mul bs n A B ii jj kk C =
     rect_update (\<lambda>i j c. dot_range add mul n A B i j kk (min (kk + bs) n) c) n
       [ii..<min (ii + bs) n] [jj..<min (jj + bs) n] C"
  by (simp add: block_def rect_update_def)

lemma naive_as_rect:
  "matmul_naive add mul zero n A B C =
     rect_update (\<lambda>i j c. dot_range add mul n A B i j 0 n zero) n [0..<n] [0..<n] C"
  by (simp add: matmul_naive_def rect_update_def)

lemma cells_naive:
  assumes "length C = n * n"
  shows "cells add mul zero n A B (\<lambda>i j. n) (matmul_naive add mul zero n A B C)"
  using rect_update_cells [of "[0..<n]" n "[0..<n]" C
      "\<lambda>i j c. dot_range add mul n A B i j 0 n zero"] assms
  by (simp add: cells_def naive_as_rect)

lemma progress_inside:
  "ii \<le> i \<Longrightarrow> i < ii + bs \<Longrightarrow> jj \<le> j \<Longrightarrow> j < jj + bs \<Longrightarrow> progress bs n ii jj k i j = min k n"
  by (simp add: progress_def)

lemma progress_outside:
  "\<not> (ii \<le> i \<and> i < ii + bs \<and> jj \<le> j \<and> j < jj + bs) \<Longrightarrow>
   progress bs n ii jj k i j = progress bs n ii jj k' i j"
  unfolding progress_def by (cases "i < ii"; cases "i < ii + bs"; cases "j < jj"; cases "j < jj + bs") simp_all

lemma progress_kk_done:
  "n \<le> k \<Longrightarrow> progress bs n ii jj k i j = progress bs n ii (jj + bs) 0 i j"
  unfolding progress_def by (cases "i < ii"; cases "i < ii + bs"; cases "j < jj"; cases "j < jj + bs") simp_all

lemma progress_jj_done:
  "n \<le> k \<Longrightarrow> j < n \<Longrightarrow> progress bs n ii k 0 i j = progress bs n (ii + bs) 0 0 i j"
  unfolding progress_def by (cases "i < ii"; cases "i < ii + bs") simp_all

lemma progress_ii_done:
  "n \<le> k \<Longrightarrow> i < n \<Longrightarrow> progress bs n k 0 0 i j = n"
  unfolding progress_def by simp

lemma block_step:
  assumes "kk < n" and c: "cells add mul zero n A B (progress bs n ii jj kk) C"
  shows "cells add mul zero n A B (progress bs n ii jj (kk + bs))
      (block add mul bs n A B ii jj kk C)"
proof -
  let ?f = "\<lambda>i j c. dot_range add mul n A B i j kk (min (kk + bs) n) c"
  let ?rows = "[ii..<min (ii + bs) n]" and ?cols = "[jj..<min (jj + bs) n]"
  let ?R = "rect_update ?f n ?rows ?cols C"
  have len: "length C = n * n" using c by (simp add: cells_def)
  have old: "C ! (i * n + j) = dot_range add mul n A B i j 0 (progress bs n ii jj kk i j) zero"
    if "i < n" "j < n" for i j
    using c that by (simp add: cells_def)
  have rect: "length ?R = n * n \<and>
      (\<forall>i<n. \<forall>j<n. ?R ! (i * n + j)
         = (if i \<in> set ?rows \<and> j \<in> set ?cols then ?f i j (C ! (i * n + j)) else C ! (i * n + j)))"
    by (rule rect_update_cells) (simp_all add: len)
  then have cell: "?R ! (i * n + j)
      = (if i \<in> set ?rows \<and> j \<in> set ?cols then ?f i j (C ! (i * n + j)) else C ! (i * n + j))"
    if "i < n" "j < n" for i j
    using that by blast
  have "?R ! (i * n + j) = dot_range add mul n A B i j 0 (progress bs n ii jj (kk + bs) i j) zero"
    if b: "i < n" "j < n" for i j
  proof (cases "ii \<le> i \<and> i < ii + bs \<and> jj \<le> j \<and> j < jj + bs")
    case True
    then have mem: "i \<in> set ?rows \<and> j \<in> set ?cols" using b by simp
    have p: "progress bs n ii jj kk i j = kk"
      using True assms(1) by (simp add: progress_inside)
    have p': "progress bs n ii jj (kk + bs) i j = min (kk + bs) n"
      using True by (simp add: progress_inside)
    have "?R ! (i * n + j) = ?f i j (C ! (i * n + j))"
      by (simp only: cell [OF b] mem simp_thms if_True)
    also have "\<dots> = ?f i j (dot_range add mul n A B i j 0 kk zero)"
      using old [OF b] p by simp
    also have "\<dots> = dot_range add mul n A B i j 0 (min (kk + bs) n) zero"
      using assms(1) by (intro dot_range_append) simp_all
    finally show ?thesis using p' by simp
  next
    case False
    then have mem: "\<not> (i \<in> set ?rows \<and> j \<in> set ?cols)" by auto
    have "?R ! (i * n + j) = C ! (i * n + j)"
      by (simp only: cell [OF b] mem simp_thms if_False)
    also have "\<dots> = dot_range add mul n A B i j 0 (progress bs n ii jj kk i j) zero"
      by (rule old [OF b])
    also have "progress bs n ii jj kk i j = progress bs n ii jj (kk + bs) i j"
      using False by (rule progress_outside)
    finally show ?thesis .
  qed
  then show ?thesis using rect by (simp add: cells_def block_as_rect)
qed

lemma cells_cong:
  assumes "cells add mul zero n A B m C" and "\<And>i j. i < n \<Longrightarrow> j < n \<Longrightarrow> m i j = m' i j"
  shows "cells add mul zero n A B m' C"
  using assms by (simp add: cells_def)

lemma kk_loop:
  assumes "0 < bs" and "cells add mul zero n A B (progress bs n ii jj 0) C"
  shows "\<exists>C'. for_step 0 n bs (\<lambda>kk C. Some (block add mul bs n A B ii jj kk C)) C = Some C' \<and>
    cells add mul zero n A B (progress bs n ii (jj + bs) 0) C'"
proof -
  have "\<exists>C' k. for_step 0 n bs (\<lambda>kk C. Some (block add mul bs n A B ii jj kk C)) C = Some C' \<and>
      n \<le> k \<and> cells add mul zero n A B (progress bs n ii jj k) C'"
    using assms(1,2)
  proof (rule for_step_inv [where Inv = "\<lambda>k C. cells add mul zero n A B (progress bs n ii jj k) C"])
    fix k t
    assume "k < n" and "cells add mul zero n A B (progress bs n ii jj k) t"
    then have "cells add mul zero n A B (progress bs n ii jj (k + bs)) (block add mul bs n A B ii jj k t)"
      by (rule block_step)
    then show "\<exists>t'. Some (block add mul bs n A B ii jj k t) = Some t' \<and>
        cells add mul zero n A B (progress bs n ii jj (k + bs)) t'"
      by simp
  qed
  then obtain C' k where r: "for_step 0 n bs (\<lambda>kk C. Some (block add mul bs n A B ii jj kk C)) C = Some C'"
    "n \<le> k" "cells add mul zero n A B (progress bs n ii jj k) C'"
    by blast
  from r(3) have "cells add mul zero n A B (progress bs n ii (jj + bs) 0) C'"
    by (rule cells_cong) (rule progress_kk_done [OF r(2)])
  with r(1) show ?thesis by blast
qed

lemma jj_loop:
  assumes "0 < bs" and "cells add mul zero n A B (progress bs n ii 0 0) C"
  shows "\<exists>C'. for_step 0 n bs (\<lambda>jj C.
        for_step 0 n bs (\<lambda>kk C. Some (block add mul bs n A B ii jj kk C)) C) C = Some C' \<and>
    cells add mul zero n A B (progress bs n (ii + bs) 0 0) C'"
proof -
  let ?body = "\<lambda>jj C. for_step 0 n bs (\<lambda>kk C. Some (block add mul bs n A B ii jj kk C)) C"
  have "\<exists>C' k. for_step 0 n bs ?body C = Some C' \<and>
      n \<le> k \<and> cells add mul zero n A B (progress bs n ii k 0) C'"
    using assms(1,2)
  proof (rule for_step_inv [where Inv = "\<lambda>k C. cells add mul zero n A B (progress bs n ii k 0) C"])
    fix k t
    assume "k < n" and "cells add mul zero n A B (progress bs n ii k 0) t"
    with assms(1) show "\<exists>t'. ?body k t = Some t' \<and>
        cells add mul zero n A B (progress bs n ii (k + bs) 0) t'"
      by (intro kk_loop)
  qed
  then obtain C' k where r: "for_step 0 n bs ?body C = Some C'"
    "n \<le> k" "cells add mul zero n A B (progress bs n ii k 0) C'"
    by blast
  from r(3) have "cells add mul zero n A B (progress bs n (ii + bs) 0 0) C'"
    by (rule cells_cong) (rule progress_jj_done [OF r(2)])
  with r(1) show ?thesis by blast
qed

lemma ii_loop:
  assumes "0 < bs" and "cells add mul zero n A B (progress bs n 0 0 0) C"
  shows "\<exists>C'. matmul_blocked add mul bs n A B C = Some C' \<and>
    cells add mul zero n A B (\<lambda>i j. n) C'"
proof -
  let ?body = "\<lambda>ii C. for_step 0 n bs (\<lambda>jj C.
        for_step 0 n bs (\<lambda>kk C. Some (block add mul bs n A B ii jj kk C)) C) C"
  have "\<exists>C' k. for_step 0 n bs ?body C = Some C' \<and>
      n \<le> k \<and> cells add mul zero n A B (progress bs n k 0 0) C'"
    using assms(1,2)
  proof (rule for_step_inv [where Inv = "\<lambda>k C. cells add mul zero n A B (progress bs n k 0 0) C"])
    fix k t
    assume "k < n" and "cells add mul zero n A B (progress bs n k 0 0) t"
    with assms(1) show "\<exists>t'. ?body k t = Some t' \<and>
        cells add mul zero n A B (progress bs n (k + bs) 0 0) t'"
      by (intro jj_loop)
  qed
  then obtain C' k where r: "for_step 0 n bs ?body C = Some C'"
    "n \<le> k" "cells add mul zero n A B (progress bs n k 0 0) C'"
    by blast
  from r(3) have "cells add mul zero n A B (\<lambda>i j. n) C'"
    by (rule cells_cong) (rule progress_ii_done [OF r(2)])
  with r(1) show ?thesis by (auto simp: matmul_blocked_def)
qed

lemma blocked_naive:
  assumes bs: "0 < bs"
  shows "matmul_blocked add mul bs n A B (zero_matrix n zero)
       = Some (matmul_naive add mul zero n A B (zero_matrix n zero))"
proof -
  have "\<exists>C'. matmul_blocked add mul bs n A B (zero_matrix n zero) = Some C' \<and>
      cells add mul zero n A B (\<lambda>i j. n) C'"
    using bs cells_zero_matrix by (rule ii_loop)
  then obtain C' where
    C': "matmul_blocked add mul bs n A B (zero_matrix n zero) = Some C'"
      "cells add mul zero n A B (\<lambda>i j. n) C'"
    by blast
  have "cells add mul zero n A B (\<lambda>i j. n) (matmul_naive add mul zero n A B (zero_matrix n zero))"
    by (rule cells_naive) (simp add: zero_matrix_def)
  with C'(2) have "C' = matmul_naive add mul zero n A B (zero_matrix n zero)"
    by (rule cells_unique)
  with C'(1) show ?thesis by simp
qed

text \<open>
  Claim C10. On the zeroed output matrix \<^verbatim>\<open>matmul_blocked\<close> returns, and returns
  exactly the matrix that \<^verbatim>\<open>matmul_naive\<close> computes, for every matrix size and every
  positive block size, whatever the addition and the multiplication of the elements
  are: every cell is the sum of the same products added in the same ascending order of
  \<open>k\<close>. This holds in particular for the program's \<open>N = 1024\<close> and block size 64.
\<close>

theorem blocked_equals_naive:
  "(0 < bs \<longrightarrow>
      matmul_blocked add mul bs n A B (zero_matrix n zero)
        = Some (matmul_naive add mul zero n A B (zero_matrix n zero))) \<and>
   matmul_blocked add mul BLOCK_SIZE MATRIX_N A B (zero_matrix MATRIX_N zero)
     = Some (matmul_naive add mul zero MATRIX_N A B (zero_matrix MATRIX_N zero))"
  by (simp add: blocked_naive BLOCK_SIZE_def)

theorem blocked_equals_naive_witness:
  "matmul_blocked (+) (*) 2 3 [1, 2, 3, 4, 5, 6, 7, 8, 9 :: int] [5, 6, 7, 8, 1, 2, 3, 4, 5]
      (zero_matrix 3 0)
     = Some [30, 20, 26, 78, 53, 68, 126, 86, 110] \<and>
   matmul_naive (+) (*) 0 3 [1, 2, 3, 4, 5, 6, 7, 8, 9 :: int] [5, 6, 7, 8, 1, 2, 3, 4, 5]
      (zero_matrix 3 0)
     = [30, 20, 26, 78, 53, 68, 126, 86, 110]"
proof -
  have "matmul_naive (+) (*) 0 3 [1, 2, 3, 4, 5, 6, 7, 8, 9 :: int] [5, 6, 7, 8, 1, 2, 3, 4, 5]
      (zero_matrix 3 0) = [30, 20, 26, 78, 53, 68, 126, 86, 110]"
    by code_simp
  with blocked_equals_naive [of 2 "(+)" "(*)" 3 "[1, 2, 3, 4, 5, 6, 7, 8, 9 :: int]"
      "[5, 6, 7, 8, 1, 2, 3, 4, 5]" 0]
  show ?thesis by simp
qed

end
